theory Spec2Isabelle
  imports Main "HOL-Library.Word" "HOL-Library.AList"
begin

section \<open>The group metadata index of weshnet (store\_metadata\_index.go)\<close>

text \<open>
  The index is the Go struct \<open>metadataStoreIndex\<close>. \<open>UpdateIndex\<close> resets part of it
  and folds the log, newest entry first, through a table of handlers; a post action then
  drains the queue of alias-key events. The model follows the source function by function.

  \<^item> A \<open>[]byte\<close> that is only converted with \<open>string(..)\<close> or measured with \<open>len(..)\<close>
    (every public key field) is a \<open>bytes\<close> value: Go does not tell nil from empty there.
    A \<open>[]byte\<close> the code compares with \<open>nil\<close> is a \<open>bytes option\<close>, \<open>None\<close> being nil.
  \<^item> A Go map that some query iterates is an association list (lookup \<open>map_of\<close>, store
    \<open>AList.update\<close>, which keeps the keys distinct). Go leaves the iteration order open;
    the model iterates in insertion order. A map used as a set and never iterated is a set.
  \<^item> The \<open>*AccountContact\<close> pointers stored in \<open>contacts\<close> and \<open>contactsFromGroupPK\<close> and
    returned by \<open>getContact\<close> are addresses into an explicit store, the field \<open>heap\<close>.
    The \<open>*ShareableContact\<close> of a record is allocated with it and never reassigned or
    shared by the index, so both live in one cell.
  \<^item> A nil dereference is a panic: the handler, and with it \<open>UpdateIndex\<close>, yields \<open>None\<close>.
    The group and the own member device given to \<open>newMetadataIndex\<close>, their keys and
    the decoded message itself are taken to be non-nil; a message inside a message (the
    contact, the group, the service token of an event) may be nil.
  \<^item> The logger is the list of lines written so far.
  \<^item> The readers-writer lock is not modelled: every operation runs alone.
\<close>

subsection \<open>Keys, errors, groups\<close>

type_synonym byte = "8 word"
type_synonym bytes = "byte list"

text \<open>Modelled from the spec: \<open>cryptoutil.KeySize\<close>, the size of a public key, 32 bytes
  (section 3 of the specification); its declaration is not among the sources.\<close>

definition KeySize :: nat where
  "KeySize = 32"

datatype errcode =
    ErrInvalidInput | ErrDeserialization | ErrMissingInput | ErrMissingMapKey
  | ErrGroupInvalidType | ErrInternal | ErrSerialization | ErrOrbitDBOpen

datatype error = Code errcode | Wrap errcode error | Errorf string

text \<open>Modelled from the spec: the type \<open>crypto.PubKey\<close> (go-libp2p) is declared outside the
  sources. Section 3 of the specification: all public keys are 32-byte Ed25519 keys. A key
  object is its raw bytes, \<open>Equals\<close> compares the bytes, and \<open>Raw()\<close> never fails on an
  Ed25519 key, so its error branch is left out.

  \<open>crypto.PubKey\<close> is an interface, and what \<open>UnmarshalEd25519PublicKey\<close> returns is a
  pointer to a key object it has just allocated. The index reads keys through \<open>Raw()\<close> and
  \<open>Equals\<close>, with one exception: the \<open>admins\<close> map is keyed by the interface value
  itself, so two of its keys are the same key exactly when they are the same pointer.
  The key objects this map holds therefore have an address in the model; everywhere else
  a key stands for its object.\<close>

datatype PubKey = Ed25519PublicKey bytes

fun Raw :: "PubKey \<Rightarrow> bytes" where
  "Raw (Ed25519PublicKey k) = k"

text \<open>\<open>crypto.UnmarshalEd25519PublicKey\<close> accepts exactly the byte strings of the key size.\<close>

definition UnmarshalEd25519PublicKey :: "bytes \<Rightarrow> error + PubKey" where
  "UnmarshalEd25519PublicKey data =
     (if length data \<noteq> 32 then Inl (Errorf ''expect ed25519 public key data size to be 32'')
      else Inr (Ed25519PublicKey data))"

datatype GroupType =
  GroupTypeUndefined | GroupTypeAccount | GroupTypeContact | GroupTypeMultiMember

record Group =
  PublicKey :: bytes
  GroupType :: GroupType

text \<open>\<open>secretstore.MemberDevice\<close>, built by \<open>secretstore.NewMemberDevice(member, device)\<close>.\<close>

record MemberDevice =
  Member :: PubKey
  Device :: PubKey

definition NewMemberDevice :: "PubKey \<Rightarrow> PubKey \<Rightarrow> MemberDevice" where
  "NewMemberDevice member device = \<lparr>Member = member, Device = device\<rparr>"

subsection \<open>Contacts, groups, tokens\<close>

datatype ContactState =
    ContactStateUndefined | ContactStateToRequest | ContactStateReceived
  | ContactStateAdded | ContactStateRemoved | ContactStateDiscarded | ContactStateBlocked

record ShareableContact =
  PK :: bytes
  PublicRendezvousSeed :: "bytes option"
  Metadata :: "bytes option"

record AccountContact =
  state :: ContactState
  contact :: ShareableContact

datatype accountGroupJoinedState = accountGroupJoinedStateJoined | accountGroupJoinedStateLeft

record accountGroup =
  ag_state :: accountGroupJoinedState
  ag_group :: "Group option"

text \<open>The \<open>ServiceToken\<close> message is declared outside the sources; the index only stores it
  and asks for its \<open>TokenID()\<close>, so the model keeps its serialised form.\<close>

datatype ServiceToken = ServiceToken bytes

subsection \<open>Events and log entries\<close>

datatype EventType =
    EventTypeUndefined
  | EventTypeGroupMemberDeviceAdded
  | EventTypeGroupDeviceChainKeyAdded
  | EventTypeAccountGroupJoined
  | EventTypeAccountGroupLeft
  | EventTypeAccountContactRequestDisabled
  | EventTypeAccountContactRequestEnabled
  | EventTypeAccountContactRequestReferenceReset
  | EventTypeAccountContactRequestOutgoingEnqueued
  | EventTypeAccountContactRequestOutgoingSent
  | EventTypeAccountContactRequestIncomingReceived
  | EventTypeAccountContactRequestIncomingDiscarded
  | EventTypeAccountContactRequestIncomingAccepted
  | EventTypeAccountContactBlocked
  | EventTypeAccountContactUnblocked
  | EventTypeContactAliasKeyAdded
  | EventTypeMultiMemberGroupAdminRoleGranted
  | EventTypeMultiMemberGroupInitialMemberAnnounced
  | EventTypeAccountServiceTokenAdded
  | EventTypeAccountServiceTokenRemoved
  | EventTypeGroupMetadataPayloadSent
  | EventTypeAccountVerifiedCredentialRegistered

text \<open>The decoded protobuf messages, with the fields the handlers read, in the order of
  the comments. A message field that is a pointer to another message may be nil.\<close>

datatype event =
    GroupMemberDeviceAdded bytes bytes
      \<comment> \<open>MemberPK, DevicePK\<close>
  | GroupDeviceChainKeyAdded bytes bytes
      \<comment> \<open>DevicePK, DestMemberPK\<close>
  | MultiMemberGroupInitialMemberAnnounced bytes
      \<comment> \<open>MemberPK\<close>
  | MultiMemberGroupAdminRoleGranted bytes
      \<comment> \<open>GranteeMemberPK\<close>
  | AccountGroupJoined "Group option"
      \<comment> \<open>Group\<close>
  | AccountGroupLeft bytes
      \<comment> \<open>GroupPK\<close>
  | AccountContactRequestDisabled
  | AccountContactRequestEnabled
  | AccountContactRequestReferenceReset "bytes option"
      \<comment> \<open>PublicRendezvousSeed\<close>
  | AccountContactRequestOutgoingEnqueued "ShareableContact option" "bytes option"
      \<comment> \<open>Contact, OwnMetadata\<close>
  | AccountContactRequestOutgoingSent bytes
      \<comment> \<open>ContactPK\<close>
  | AccountContactRequestIncomingReceived bytes "bytes option" "bytes option"
      \<comment> \<open>ContactPK, ContactRendezvousSeed, ContactMetadata\<close>
  | AccountContactRequestIncomingDiscarded bytes
      \<comment> \<open>ContactPK\<close>
  | AccountContactRequestIncomingAccepted bytes
      \<comment> \<open>ContactPK\<close>
  | AccountContactBlocked bytes
      \<comment> \<open>ContactPK\<close>
  | AccountContactUnblocked bytes
      \<comment> \<open>ContactPK\<close>
  | ContactAliasKeyAdded bytes bytes
      \<comment> \<open>DevicePK, AliasPK\<close>
  | AccountServiceTokenAdded "ServiceToken option"
      \<comment> \<open>ServiceToken\<close>
  | AccountServiceTokenRemoved string
      \<comment> \<open>TokenID\<close>
  | GroupMetadataPayloadSent
  | AccountVerifiedCredentialRegistered bytes
      \<comment> \<open>the registered credential, kept whole\<close>

record Entry =
  GetHash :: string
  payload :: bytes

text \<open>What the index consumes and the sources do not hold:
  \<^item> \<open>openMetadataEntry\<close>, the decoder of one log entry for the bound group, giving the
    event type of the envelope and the decoded message, or an error (its first argument,
    the log the entry belongs to, is left out);
  \<^item> \<open>GetGroupForContact\<close> of the secret store;
  \<^item> \<open>TokenID\<close> of a service token, \<open>None\<close> where the method panics (it is called on a
    pointer that may be nil).\<close>

record env =
  openMetadataEntry :: "Group \<Rightarrow> Entry \<Rightarrow> error + (EventType \<times> event)"
  GetGroupForContact :: "PubKey \<Rightarrow> error + Group"
  TokenID :: "ServiceToken option \<Rightarrow> string option"

subsection \<open>The index\<close>

type_synonym addr = nat

datatype log_line =
    LogUnableToOpen error
  | LogHandlerNotFound EventType
  | LogUnableToHandle error

record metadataStoreIndex =
  members :: "(bytes \<times> MemberDevice list) list"
  devices :: "(bytes \<times> MemberDevice) list"
  handledEvents :: "string set"
  sentSecrets :: "bytes set"
  admins :: "(addr \<times> PubKey) list"
  contacts :: "(bytes \<times> addr) list"
  contactsFromGroupPK :: "(bytes \<times> addr) list"
  groups :: "(bytes \<times> accountGroup) list"
  serviceTokens :: "(string \<times> ServiceToken option) list"
  contactRequestMetadata :: "(bytes \<times> bytes option) list"
  verifiedCredentials :: "bytes list"
  contactRequestSeed :: "bytes option"
  contactRequestEnabled :: "bool option"
  eventsContactAddAliasKey :: "(bytes \<times> bytes) list"
  ownAliasKeySent :: bool
  otherAliasKey :: "bytes option"
  group :: Group
  ownMemberDevice :: MemberDevice
  heap :: "AccountContact list"
  logger :: "log_line list"

type_synonym hres = "(error option \<times> metadataStoreIndex) option"

text \<open>\<open>newMetadataIndex\<close>: every map empty, every other field at its zero value. The
  store starts with the cells \<open>h\<close> the program has allocated so far.\<close>

definition newMetadataIndex :: "Group \<Rightarrow> MemberDevice \<Rightarrow> AccountContact list \<Rightarrow> metadataStoreIndex" where
  "newMetadataIndex g md h =
     \<lparr>members = [], devices = [], handledEvents = {}, sentSecrets = {}, admins = [],
      contacts = [], contactsFromGroupPK = [], groups = [], serviceTokens = [],
      contactRequestMetadata = [], verifiedCredentials = [], contactRequestSeed = None,
      contactRequestEnabled = None, eventsContactAddAliasKey = [], ownAliasKeySent = False,
      otherAliasKey = None, group = g, ownMemberDevice = md, heap = h, logger = []\<rparr>"

text \<open>\<open>&AccountContact{...}\<close>: a new cell at the end of the store.\<close>

definition new_AccountContact :: "AccountContact \<Rightarrow> metadataStoreIndex \<Rightarrow> addr \<times> metadataStoreIndex" where
  "new_AccountContact c m = (length (heap m), m\<lparr>heap := heap m @ [c]\<rparr>)"

definition len :: "bytes option \<Rightarrow> nat" where
  "len data = (case data of None \<Rightarrow> 0 | Some b \<Rightarrow> length b)"

definition log_error :: "log_line \<Rightarrow> metadataStoreIndex \<Rightarrow> metadataStoreIndex" where
  "log_error l m = m\<lparr>logger := logger m @ [l]\<rparr>"

subsection \<open>Member and device registry\<close>

definition handleGroupMemberDeviceAdded :: "env \<Rightarrow> event \<Rightarrow> metadataStoreIndex \<Rightarrow> hres" where
  "handleGroupMemberDeviceAdded E ev m =
     (case ev of
        GroupMemberDeviceAdded MemberPK DevicePK \<Rightarrow>
          (case UnmarshalEd25519PublicKey MemberPK of
             Inl err \<Rightarrow> Some (Some (Wrap ErrDeserialization err), m)
           | Inr member \<Rightarrow>
          (case UnmarshalEd25519PublicKey DevicePK of
             Inl err \<Rightarrow> Some (Some (Wrap ErrDeserialization err), m)
           | Inr device \<Rightarrow>
          (case map_of (devices m) DevicePK of
             Some _ \<Rightarrow> Some (None, m)
           | None \<Rightarrow>
               let memberDevice = NewMemberDevice member device
               in Some (None,
                    m\<lparr>devices := AList.update DevicePK memberDevice (devices m),
                      members := AList.update MemberPK
                        ((case map_of (members m) MemberPK of None \<Rightarrow> [] | Some mds \<Rightarrow> mds)
                           @ [memberDevice]) (members m)\<rparr>))))
      | _ \<Rightarrow> Some (Some (Code ErrInvalidInput), m))"

definition handleGroupDeviceChainKeyAdded :: "env \<Rightarrow> event \<Rightarrow> metadataStoreIndex \<Rightarrow> hres" where
  "handleGroupDeviceChainKeyAdded E ev m =
     (case ev of
        GroupDeviceChainKeyAdded DevicePK DestMemberPK \<Rightarrow>
          (case UnmarshalEd25519PublicKey DestMemberPK of
             Inl err \<Rightarrow> Some (Some (Wrap ErrDeserialization err), m)
           | Inr _ \<Rightarrow>
          (case UnmarshalEd25519PublicKey DevicePK of
             Inl err \<Rightarrow> Some (Some (Wrap ErrDeserialization err), m)
           | Inr senderPK \<Rightarrow>
               if Device (ownMemberDevice m) = senderPK
               then Some (None, m\<lparr>sentSecrets := insert DestMemberPK (sentSecrets m)\<rparr>)
               else Some (None, m)))
      | _ \<Rightarrow> Some (Some (Code ErrInvalidInput), m))"

definition unsafeGetMemberByDevice :: "metadataStoreIndex \<Rightarrow> bytes \<Rightarrow> error + PubKey" where
  "unsafeGetMemberByDevice m publicKeyBytes =
     (if length publicKeyBytes \<noteq> KeySize
      then Inl (Wrap ErrInvalidInput (Errorf ''invalid private key size''))
      else case map_of (devices m) publicKeyBytes of
             None \<Rightarrow> Inl (Code ErrMissingInput)
           | Some device \<Rightarrow> Inr (Member device))"

definition getMemberByDevice :: "metadataStoreIndex \<Rightarrow> PubKey \<Rightarrow> error + PubKey" where
  "getMemberByDevice m devicePublicKey = unsafeGetMemberByDevice m (Raw devicePublicKey)"

definition getDevicesForMember :: "metadataStoreIndex \<Rightarrow> PubKey \<Rightarrow> error + PubKey list" where
  "getDevicesForMember m pk =
     (case map_of (members m) (Raw pk) of
        None \<Rightarrow> Inl (Code ErrInvalidInput)
      | Some mds \<Rightarrow> Inr (map Device mds))"

definition MemberCount :: "metadataStoreIndex \<Rightarrow> nat" where
  "MemberCount m = length (members m)"

definition DeviceCount :: "metadataStoreIndex \<Rightarrow> nat" where
  "DeviceCount m = length (devices m)"

text \<open>\<open>listMembers\<close> reads \<open>md[0]\<close> of every list: an empty list would be an index out of
  range, the result \<open>None\<close>.\<close>

definition listMembers :: "metadataStoreIndex \<Rightarrow> PubKey list option" where
  "listMembers m =
     (if \<exists>md \<in> set (map snd (members m)). md = [] then None
      else Some (map (\<lambda>(k, md). Member (hd md)) (members m)))"

definition listDevices :: "metadataStoreIndex \<Rightarrow> PubKey list" where
  "listDevices m = map (\<lambda>(k, md). Device md) (devices m)"

definition areSecretsAlreadySent :: "metadataStoreIndex \<Rightarrow> PubKey \<Rightarrow> bool" where
  "areSecretsAlreadySent m pk = (Raw pk \<in> sentSecrets m)"

text \<open>\<open>listOtherMembersDevices\<close> first returns nil when the own member device or its
  member key is nil, or when that key cannot be serialised; none of this happens here.\<close>

definition listOtherMembersDevices :: "metadataStoreIndex \<Rightarrow> PubKey list" where
  "listOtherMembersDevices m =
     (let ownMemberPK = Raw (Member (ownMemberDevice m))
      in concat (map (\<lambda>(pk, devicesForMember).
                        if ownMemberPK = pk then [] else map Device devicesForMember)
                     (members m)))"

subsection \<open>Admins\<close>

text \<open>The \<open>admins\<close> map, \<open>map[crypto.PubKey]struct{}\<close>, is the list of its keys: pointers,
  each with the key object it points to. The pointer \<open>pk\<close> that
  \<open>UnmarshalEd25519PublicKey\<close> returns in \<open>handleMultiMemberInitialMember\<close> is new, so its
  address is none of the addresses the map holds; the lookup \<open>m.admins[pk]\<close> compares the
  pointers.\<close>

definition new_PubKey :: "metadataStoreIndex \<Rightarrow> addr" where
  "new_PubKey m = Suc (fold max (map fst (admins m)) 0)"

definition handleMultiMemberInitialMember :: "env \<Rightarrow> event \<Rightarrow> metadataStoreIndex \<Rightarrow> hres" where
  "handleMultiMemberInitialMember E ev m =
     (case ev of
        MultiMemberGroupInitialMemberAnnounced MemberPK \<Rightarrow>
          (case UnmarshalEd25519PublicKey MemberPK of
             Inl err \<Rightarrow> Some (Some (Wrap ErrDeserialization err), m)
           | Inr key \<Rightarrow>
               let pk = new_PubKey m
               in if map_of (admins m) pk \<noteq> None then Some (Some (Code ErrInternal), m)
                  else Some (None, m\<lparr>admins := AList.update pk key (admins m)\<rparr>))
      | _ \<Rightarrow> Some (Some (Code ErrInvalidInput), m))"

definition handleMultiMemberGrantAdminRole :: "env \<Rightarrow> event \<Rightarrow> metadataStoreIndex \<Rightarrow> hres" where
  "handleMultiMemberGrantAdminRole E ev m = Some (None, m)"

definition handleGroupMetadataPayloadSent :: "env \<Rightarrow> event \<Rightarrow> metadataStoreIndex \<Rightarrow> hres" where
  "handleGroupMetadataPayloadSent E ev m = Some (None, m)"

text \<open>\<open>listAdmins\<close> returns the keys of the map; the model gives the key objects they
  point to, which nothing ever modifies.\<close>

definition listAdmins :: "metadataStoreIndex \<Rightarrow> PubKey list" where
  "listAdmins m = map snd (admins m)"

subsection \<open>Group roster\<close>

text \<open>\<open>evt.Group.PublicKey\<close> dereferences \<open>evt.Group\<close> without a nil check.\<close>

definition handleGroupJoined :: "env \<Rightarrow> event \<Rightarrow> metadataStoreIndex \<Rightarrow> hres" where
  "handleGroupJoined E ev m =
     (case ev of
        AccountGroupJoined evtGroup \<Rightarrow>
          (case evtGroup of
             None \<Rightarrow> None
           | Some g \<Rightarrow>
               (case map_of (groups m) (PublicKey g) of
                  Some _ \<Rightarrow> Some (None, m)
                | None \<Rightarrow>
                    Some (None, m\<lparr>groups := AList.update (PublicKey g)
                      \<lparr>ag_state = accountGroupJoinedStateJoined, ag_group = evtGroup\<rparr> (groups m)\<rparr>)))
      | _ \<Rightarrow> Some (Some (Code ErrInvalidInput), m))"

definition handleGroupLeft :: "env \<Rightarrow> event \<Rightarrow> metadataStoreIndex \<Rightarrow> hres" where
  "handleGroupLeft E ev m =
     (case ev of
        AccountGroupLeft GroupPK \<Rightarrow>
          (case map_of (groups m) GroupPK of
             Some _ \<Rightarrow> Some (None, m)
           | None \<Rightarrow>
               Some (None, m\<lparr>groups := AList.update GroupPK
                 \<lparr>ag_state = accountGroupJoinedStateLeft, ag_group = None\<rparr> (groups m)\<rparr>))
      | _ \<Rightarrow> Some (Some (Code ErrInvalidInput), m))"

subsection \<open>Contact request settings\<close>

definition handleContactRequestDisabled :: "env \<Rightarrow> event \<Rightarrow> metadataStoreIndex \<Rightarrow> hres" where
  "handleContactRequestDisabled E ev m =
     (if contactRequestEnabled m \<noteq> None then Some (None, m)
      else case ev of
             AccountContactRequestDisabled \<Rightarrow> Some (None, m\<lparr>contactRequestEnabled := Some False\<rparr>)
           | _ \<Rightarrow> Some (Some (Code ErrInvalidInput), m))"

definition handleContactRequestEnabled :: "env \<Rightarrow> event \<Rightarrow> metadataStoreIndex \<Rightarrow> hres" where
  "handleContactRequestEnabled E ev m =
     (if contactRequestEnabled m \<noteq> None then Some (None, m)
      else case ev of
             AccountContactRequestEnabled \<Rightarrow> Some (None, m\<lparr>contactRequestEnabled := Some True\<rparr>)
           | _ \<Rightarrow> Some (Some (Code ErrInvalidInput), m))"

definition handleContactRequestReferenceReset :: "env \<Rightarrow> event \<Rightarrow> metadataStoreIndex \<Rightarrow> hres" where
  "handleContactRequestReferenceReset E ev m =
     (case ev of
        AccountContactRequestReferenceReset seed \<Rightarrow>
          if contactRequestSeed m \<noteq> None then Some (None, m)
          else Some (None, m\<lparr>contactRequestSeed := seed\<rparr>)
      | _ \<Rightarrow> Some (Some (Code ErrInvalidInput), m))"

definition contactRequestsEnabled :: "metadataStoreIndex \<Rightarrow> bool" where
  "contactRequestsEnabled m = (case contactRequestEnabled m of None \<Rightarrow> False | Some b \<Rightarrow> b)"

definition contactRequestsSeed :: "metadataStoreIndex \<Rightarrow> bytes option" where
  "contactRequestsSeed m = contactRequestSeed m"

subsection \<open>Contact state machine\<close>

definition registerContactFromGroupPK ::
  "env \<Rightarrow> addr \<Rightarrow> metadataStoreIndex \<Rightarrow> error option \<times> metadataStoreIndex" where
  "registerContactFromGroupPK E ac m =
     (if GroupType (group m) \<noteq> GroupTypeAccount then (Some (Code ErrGroupInvalidType), m)
      else case UnmarshalEd25519PublicKey (PK (contact (heap m ! ac))) of
             Inl err \<Rightarrow> (Some (Wrap ErrDeserialization err), m)
           | Inr contactPK \<Rightarrow>
               (case GetGroupForContact E contactPK of
                  Inl err \<Rightarrow> (Some (Wrap ErrOrbitDBOpen err), m)
                | Inr g \<Rightarrow>
                    (None, m\<lparr>contactsFromGroupPK :=
                               AList.update (PublicKey g) ac (contactsFromGroupPK m)\<rparr>)))"

definition handleContactRequestOutgoingEnqueued :: "env \<Rightarrow> event \<Rightarrow> metadataStoreIndex \<Rightarrow> hres" where
  "handleContactRequestOutgoingEnqueued E ev m =
     (case ev of
        AccountContactRequestOutgoingEnqueued (Some evtContact) OwnMetadata \<Rightarrow>
          (case map_of (contacts m) (PK evtContact) of
             Some p \<Rightarrow>
               let c = heap m ! p;
                   c1 = (if Metadata (contact c) = None
                         then c\<lparr>contact := (contact c)\<lparr>Metadata := Metadata evtContact\<rparr>\<rparr>
                         else c);
                   c2 = (if PublicRendezvousSeed (contact c1) = None
                         then c1\<lparr>contact := (contact c1)
                                   \<lparr>PublicRendezvousSeed := PublicRendezvousSeed evtContact\<rparr>\<rparr>
                         else c1)
               in Some (None, m\<lparr>heap := (heap m)[p := c2]\<rparr>)
           | None \<Rightarrow>
               let m0 = (if (case map_of (contactRequestMetadata m) (PK evtContact) of
                               None \<Rightarrow> True | Some data \<Rightarrow> len data = 0)
                         then m\<lparr>contactRequestMetadata :=
                                  AList.update (PK evtContact) OwnMetadata (contactRequestMetadata m)\<rparr>
                         else m)
               in (case new_AccountContact
                         \<lparr>state = ContactStateToRequest,
                          contact = \<lparr>PK = PK evtContact,
                                     PublicRendezvousSeed = PublicRendezvousSeed evtContact,
                                     Metadata = Metadata evtContact\<rparr>\<rparr> m0 of
                     (ac, m1) \<Rightarrow>
                       Some (registerContactFromGroupPK E ac
                               (m1\<lparr>contacts := AList.update (PK evtContact) ac (contacts m1)\<rparr>))))
      | _ \<Rightarrow> Some (Some (Code ErrInvalidInput), m))"

definition handleContactRequestOutgoingSent :: "env \<Rightarrow> event \<Rightarrow> metadataStoreIndex \<Rightarrow> hres" where
  "handleContactRequestOutgoingSent E ev m =
     (case ev of
        AccountContactRequestOutgoingSent ContactPK \<Rightarrow>
          (case map_of (contacts m) ContactPK of
             Some _ \<Rightarrow> Some (None, m)
           | None \<Rightarrow>
               (case new_AccountContact
                       \<lparr>state = ContactStateAdded,
                        contact = \<lparr>PK = ContactPK, PublicRendezvousSeed = None, Metadata = None\<rparr>\<rparr> m of
                  (ac, m1) \<Rightarrow>
                    Some (registerContactFromGroupPK E ac
                            (m1\<lparr>contacts := AList.update ContactPK ac (contacts m1)\<rparr>))))
      | _ \<Rightarrow> Some (Some (Code ErrInvalidInput), m))"

definition handleContactRequestIncomingReceived :: "env \<Rightarrow> event \<Rightarrow> metadataStoreIndex \<Rightarrow> hres" where
  "handleContactRequestIncomingReceived E ev m =
     (case ev of
        AccountContactRequestIncomingReceived ContactPK ContactRendezvousSeed ContactMetadata \<Rightarrow>
          (case map_of (contacts m) ContactPK of
             Some p \<Rightarrow>
               let c = heap m ! p;
                   c1 = (if Metadata (contact c) = None
                         then c\<lparr>contact := (contact c)\<lparr>Metadata := ContactMetadata\<rparr>\<rparr>
                         else c);
                   c2 = (if PublicRendezvousSeed (contact c1) = None
                         then c1\<lparr>contact := (contact c1)
                                   \<lparr>PublicRendezvousSeed := ContactRendezvousSeed\<rparr>\<rparr>
                         else c1)
               in Some (None, m\<lparr>heap := (heap m)[p := c2]\<rparr>)
           | None \<Rightarrow>
               (case new_AccountContact
                       \<lparr>state = ContactStateReceived,
                        contact = \<lparr>PK = ContactPK, PublicRendezvousSeed = ContactRendezvousSeed,
                                   Metadata = ContactMetadata\<rparr>\<rparr> m of
                  (ac, m1) \<Rightarrow>
                    Some (registerContactFromGroupPK E ac
                            (m1\<lparr>contacts := AList.update ContactPK ac (contacts m1)\<rparr>))))
      | _ \<Rightarrow> Some (Some (Code ErrInvalidInput), m))"

definition handleContactRequestIncomingDiscarded :: "env \<Rightarrow> event \<Rightarrow> metadataStoreIndex \<Rightarrow> hres" where
  "handleContactRequestIncomingDiscarded E ev m =
     (case ev of
        AccountContactRequestIncomingDiscarded ContactPK \<Rightarrow>
          (case map_of (contacts m) ContactPK of
             Some _ \<Rightarrow> Some (None, m)
           | None \<Rightarrow>
               (case new_AccountContact
                       \<lparr>state = ContactStateDiscarded,
                        contact = \<lparr>PK = ContactPK, PublicRendezvousSeed = None, Metadata = None\<rparr>\<rparr> m of
                  (ac, m1) \<Rightarrow>
                    Some (registerContactFromGroupPK E ac
                            (m1\<lparr>contacts := AList.update ContactPK ac (contacts m1)\<rparr>))))
      | _ \<Rightarrow> Some (Some (Code ErrInvalidInput), m))"

definition handleContactRequestIncomingAccepted :: "env \<Rightarrow> event \<Rightarrow> metadataStoreIndex \<Rightarrow> hres" where
  "handleContactRequestIncomingAccepted E ev m =
     (case ev of
        AccountContactRequestIncomingAccepted ContactPK \<Rightarrow>
          (case map_of (contacts m) ContactPK of
             Some _ \<Rightarrow> Some (None, m)
           | None \<Rightarrow>
               (case new_AccountContact
                       \<lparr>state = ContactStateAdded,
                        contact = \<lparr>PK = ContactPK, PublicRendezvousSeed = None, Metadata = None\<rparr>\<rparr> m of
                  (ac, m1) \<Rightarrow>
                    Some (registerContactFromGroupPK E ac
                            (m1\<lparr>contacts := AList.update ContactPK ac (contacts m1)\<rparr>))))
      | _ \<Rightarrow> Some (Some (Code ErrInvalidInput), m))"

definition handleContactBlocked :: "env \<Rightarrow> event \<Rightarrow> metadataStoreIndex \<Rightarrow> hres" where
  "handleContactBlocked E ev m =
     (case ev of
        AccountContactBlocked ContactPK \<Rightarrow>
          (case map_of (contacts m) ContactPK of
             Some _ \<Rightarrow> Some (None, m)
           | None \<Rightarrow>
               (case new_AccountContact
                       \<lparr>state = ContactStateBlocked,
                        contact = \<lparr>PK = ContactPK, PublicRendezvousSeed = None, Metadata = None\<rparr>\<rparr> m of
                  (ac, m1) \<Rightarrow>
                    Some (registerContactFromGroupPK E ac
                            (m1\<lparr>contacts := AList.update ContactPK ac (contacts m1)\<rparr>))))
      | _ \<Rightarrow> Some (Some (Code ErrInvalidInput), m))"

definition handleContactUnblocked :: "env \<Rightarrow> event \<Rightarrow> metadataStoreIndex \<Rightarrow> hres" where
  "handleContactUnblocked E ev m =
     (case ev of
        AccountContactUnblocked ContactPK \<Rightarrow>
          (case map_of (contacts m) ContactPK of
             Some _ \<Rightarrow> Some (None, m)
           | None \<Rightarrow>
               (case new_AccountContact
                       \<lparr>state = ContactStateRemoved,
                        contact = \<lparr>PK = ContactPK, PublicRendezvousSeed = None, Metadata = None\<rparr>\<rparr> m of
                  (ac, m1) \<Rightarrow>
                    Some (registerContactFromGroupPK E ac
                            (m1\<lparr>contacts := AList.update ContactPK ac (contacts m1)\<rparr>))))
      | _ \<Rightarrow> Some (Some (Code ErrInvalidInput), m))"

definition handleContactAliasKeyAdded :: "env \<Rightarrow> event \<Rightarrow> metadataStoreIndex \<Rightarrow> hres" where
  "handleContactAliasKeyAdded E ev m =
     (case ev of
        ContactAliasKeyAdded DevicePK AliasPK \<Rightarrow>
          Some (None, m\<lparr>eventsContactAddAliasKey :=
                          eventsContactAddAliasKey m @ [(DevicePK, AliasPK)]\<rparr>)
      | _ \<Rightarrow> Some (Some (Code ErrInvalidInput), m))"

text \<open>\<open>listContacts\<close> builds a new map of new records: one new cell for every contact, in
  the order of the iteration, holding the fields of the internal record.\<close>

definition listContacts :: "metadataStoreIndex \<Rightarrow> (bytes \<times> addr) list \<times> metadataStoreIndex" where
  "listContacts m =
     (zip (map fst (contacts m)) [length (heap m) ..< length (heap m) + length (contacts m)],
      m\<lparr>heap := heap m @
          map (\<lambda>(k, p). \<lparr>state = state (heap m ! p),
                         contact = \<lparr>PK = PK (contact (heap m ! p)),
                                    PublicRendezvousSeed = PublicRendezvousSeed (contact (heap m ! p)),
                                    Metadata = Metadata (contact (heap m ! p))\<rparr>\<rparr>)
              (contacts m)\<rparr>)"

definition getContact :: "metadataStoreIndex \<Rightarrow> PubKey \<Rightarrow> error + addr" where
  "getContact m pk =
     (case map_of (contacts m) (Raw pk) of
        None \<Rightarrow> Inl (Code ErrMissingMapKey)
      | Some p \<Rightarrow> Inr p)"

subsection \<open>Service tokens and verified credentials\<close>

definition listServiceTokens :: "metadataStoreIndex \<Rightarrow> ServiceToken list" where
  "listServiceTokens m =
     concat (map (\<lambda>(k, t). case t of None \<Rightarrow> [] | Some tok \<Rightarrow> [tok]) (serviceTokens m))"

definition handleAccountServiceTokenAdded :: "env \<Rightarrow> event \<Rightarrow> metadataStoreIndex \<Rightarrow> hres" where
  "handleAccountServiceTokenAdded E ev m =
     (case ev of
        AccountServiceTokenAdded evtServiceToken \<Rightarrow>
          (case TokenID E evtServiceToken of
             None \<Rightarrow> None
           | Some tokenID \<Rightarrow>
               (case map_of (serviceTokens m) tokenID of
                  Some _ \<Rightarrow> Some (None, m)
                | None \<Rightarrow>
                    Some (None, m\<lparr>serviceTokens :=
                                    AList.update tokenID evtServiceToken (serviceTokens m)\<rparr>)))
      | _ \<Rightarrow> Some (Some (Code ErrInvalidInput), m))"

definition handleAccountServiceTokenRemoved :: "env \<Rightarrow> event \<Rightarrow> metadataStoreIndex \<Rightarrow> hres" where
  "handleAccountServiceTokenRemoved E ev m =
     (case ev of
        AccountServiceTokenRemoved tokenID \<Rightarrow>
          Some (None, m\<lparr>serviceTokens := AList.update tokenID None (serviceTokens m)\<rparr>)
      | _ \<Rightarrow> Some (Some (Code ErrInvalidInput), m))"

definition handleAccountVerifiedCredentialRegistered :: "env \<Rightarrow> event \<Rightarrow> metadataStoreIndex \<Rightarrow> hres" where
  "handleAccountVerifiedCredentialRegistered E ev m =
     (case ev of
        AccountVerifiedCredentialRegistered e \<Rightarrow>
          Some (None, m\<lparr>verifiedCredentials := verifiedCredentials m @ [e]\<rparr>)
      | _ \<Rightarrow> Some (Some (Code ErrInvalidInput), m))"

definition listVerifiedCredentials :: "metadataStoreIndex \<Rightarrow> bytes list" where
  "listVerifiedCredentials m = verifiedCredentials m"

subsection \<open>Post action: the alias keys\<close>

fun postHandlerSentAliases_loop ::
  "(bytes \<times> bytes) list \<Rightarrow> metadataStoreIndex \<Rightarrow> error option \<times> metadataStoreIndex" where
  "postHandlerSentAliases_loop [] m = (None, m\<lparr>eventsContactAddAliasKey := []\<rparr>)"
| "postHandlerSentAliases_loop ((DevicePK, AliasPK) # evts) m =
     (case unsafeGetMemberByDevice m DevicePK of
        Inl err \<Rightarrow> (Some (Errorf ''could not get member for device''), m)
      | Inr memberPublicKey \<Rightarrow>
          if memberPublicKey = Member (ownMemberDevice m)
          then postHandlerSentAliases_loop evts (m\<lparr>ownAliasKeySent := True\<rparr>)
          else if length AliasPK \<noteq> KeySize
          then (Some (Wrap ErrInvalidInput (Errorf ''invalid alias key size'')), m)
          else postHandlerSentAliases_loop evts (m\<lparr>otherAliasKey := Some AliasPK\<rparr>))"

definition postHandlerSentAliases :: "metadataStoreIndex \<Rightarrow> error option \<times> metadataStoreIndex" where
  "postHandlerSentAliases m = postHandlerSentAliases_loop (eventsContactAddAliasKey m) m"

subsection \<open>The replay engine\<close>

text \<open>The table \<open>m.eventHandlers\<close> and the list \<open>m.postIndexActions\<close> set up by
  \<open>newMetadataIndex\<close>; they never change, so they are constants here.\<close>

fun eventHandlers :: "EventType \<Rightarrow> (env \<Rightarrow> event \<Rightarrow> metadataStoreIndex \<Rightarrow> hres) list option" where
  "eventHandlers EventTypeAccountContactBlocked = Some [handleContactBlocked]"
| "eventHandlers EventTypeAccountContactRequestDisabled = Some [handleContactRequestDisabled]"
| "eventHandlers EventTypeAccountContactRequestEnabled = Some [handleContactRequestEnabled]"
| "eventHandlers EventTypeAccountContactRequestIncomingAccepted =
     Some [handleContactRequestIncomingAccepted]"
| "eventHandlers EventTypeAccountContactRequestIncomingDiscarded =
     Some [handleContactRequestIncomingDiscarded]"
| "eventHandlers EventTypeAccountContactRequestIncomingReceived =
     Some [handleContactRequestIncomingReceived]"
| "eventHandlers EventTypeAccountContactRequestOutgoingEnqueued =
     Some [handleContactRequestOutgoingEnqueued]"
| "eventHandlers EventTypeAccountContactRequestOutgoingSent =
     Some [handleContactRequestOutgoingSent]"
| "eventHandlers EventTypeAccountContactRequestReferenceReset =
     Some [handleContactRequestReferenceReset]"
| "eventHandlers EventTypeAccountContactUnblocked = Some [handleContactUnblocked]"
| "eventHandlers EventTypeAccountGroupJoined = Some [handleGroupJoined]"
| "eventHandlers EventTypeAccountGroupLeft = Some [handleGroupLeft]"
| "eventHandlers EventTypeContactAliasKeyAdded = Some [handleContactAliasKeyAdded]"
| "eventHandlers EventTypeGroupDeviceChainKeyAdded = Some [handleGroupDeviceChainKeyAdded]"
| "eventHandlers EventTypeGroupMemberDeviceAdded = Some [handleGroupMemberDeviceAdded]"
| "eventHandlers EventTypeMultiMemberGroupAdminRoleGranted =
     Some [handleMultiMemberGrantAdminRole]"
| "eventHandlers EventTypeMultiMemberGroupInitialMemberAnnounced =
     Some [handleMultiMemberInitialMember]"
| "eventHandlers EventTypeAccountServiceTokenAdded = Some [handleAccountServiceTokenAdded]"
| "eventHandlers EventTypeAccountServiceTokenRemoved = Some [handleAccountServiceTokenRemoved]"
| "eventHandlers EventTypeGroupMetadataPayloadSent = Some [handleGroupMetadataPayloadSent]"
| "eventHandlers EventTypeAccountVerifiedCredentialRegistered =
     Some [handleAccountVerifiedCredentialRegistered]"
| "eventHandlers EventTypeUndefined = None"

definition postIndexActions :: "(metadataStoreIndex \<Rightarrow> error option \<times> metadataStoreIndex) list" where
  "postIndexActions = [postHandlerSentAliases]"

text \<open>The inner loop \<open>for _, h := range handlers\<close>: an error is logged and remembered, the
  next handler still runs.\<close>

fun run_handlers ::
  "env \<Rightarrow> (env \<Rightarrow> event \<Rightarrow> metadataStoreIndex \<Rightarrow> hres) list \<Rightarrow> event \<Rightarrow> error option \<Rightarrow>
   metadataStoreIndex \<Rightarrow> (error option \<times> metadataStoreIndex) option" where
  "run_handlers E [] ev lastErr m = Some (lastErr, m)"
| "run_handlers E (h # hs) ev lastErr m =
     (case h E ev m of
        None \<Rightarrow> None
      | Some (None, m') \<Rightarrow> run_handlers E hs ev lastErr m'
      | Some (Some err, m') \<Rightarrow>
          run_handlers E hs ev (Some err) (log_error (LogUnableToHandle err) m'))"

definition mark_handled :: "Entry \<Rightarrow> metadataStoreIndex \<Rightarrow> metadataStoreIndex" where
  "mark_handled e m = m\<lparr>handledEvents := insert (GetHash e) (handledEvents m)\<rparr>"

text \<open>The body of the outer loop from \<open>openMetadataEntry\<close> on.\<close>

definition process_entry :: "env \<Rightarrow> metadataStoreIndex \<Rightarrow> Entry \<Rightarrow> metadataStoreIndex option" where
  "process_entry E m e =
     (case openMetadataEntry E (group m) e of
        Inl err \<Rightarrow> Some (log_error (LogUnableToOpen err) m)
      | Inr (eventType, ev) \<Rightarrow>
          (case eventHandlers eventType of
             None \<Rightarrow> Some (log_error (LogHandlerNotFound eventType) (mark_handled e m))
           | Some handlers \<Rightarrow>
               (case run_handlers E handlers ev None m of
                  None \<Rightarrow> None
                | Some (lastErr, m') \<Rightarrow>
                    if lastErr \<noteq> None then Some (mark_handled e m')
                    else Some (mark_handled e m'))))"

definition loop_body :: "env \<Rightarrow> metadataStoreIndex \<Rightarrow> Entry \<Rightarrow> metadataStoreIndex option" where
  "loop_body E m e =
     (let alreadyHandledEvent = (GetHash e \<in> handledEvents m)
      in if GroupType (group m) \<noteq> GroupTypeAccount \<and> alreadyHandledEvent then Some m
         else process_entry E m e)"

fun replay :: "env \<Rightarrow> metadataStoreIndex \<Rightarrow> Entry list \<Rightarrow> metadataStoreIndex option" where
  "replay E m [] = Some m"
| "replay E m (e # es) =
     (case loop_body E m e of
        None \<Rightarrow> None
      | Some m' \<Rightarrow> replay E m' es)"

fun run_postIndexActions ::
  "(metadataStoreIndex \<Rightarrow> error option \<times> metadataStoreIndex) list \<Rightarrow> metadataStoreIndex \<Rightarrow>
   error option \<times> metadataStoreIndex" where
  "run_postIndexActions [] m = (None, m)"
| "run_postIndexActions (h # hs) m =
     (case h m of
        (Some err, m') \<Rightarrow> (Some (Wrap ErrInternal err), m')
      | (None, m') \<Rightarrow> run_postIndexActions hs m')"

text \<open>The block \<open>// Resetting state\<close>.\<close>

definition reset :: "metadataStoreIndex \<Rightarrow> metadataStoreIndex" where
  "reset m =
     m\<lparr>contacts := [], contactsFromGroupPK := [], groups := [], serviceTokens := [],
       contactRequestMetadata := [], contactRequestEnabled := None, contactRequestSeed := None,
       verifiedCredentials := [], handledEvents := {}\<rparr>"

text \<open>\<open>UpdateIndex\<close>: the entries are visited from the last index down to 0, that is, in the
  order of \<open>rev entries\<close>. The result is \<open>None\<close> when a handler panics, else the returned
  error and the index as the call leaves it.\<close>

definition UpdateIndex ::
  "env \<Rightarrow> metadataStoreIndex \<Rightarrow> Entry list \<Rightarrow> (error option \<times> metadataStoreIndex) option" where
  "UpdateIndex E m entries =
     (case replay E (reset m) (rev entries) of
        None \<Rightarrow> None
      | Some m' \<Rightarrow> Some (run_postIndexActions postIndexActions m'))"

section \<open>Vocabulary of the properties\<close>

text \<open>The event type under which a message is registered in the table of handlers:
  a handler acts on a message only when the envelope carries this type.\<close>

fun type_of_event :: "event \<Rightarrow> EventType" where
  "type_of_event (GroupMemberDeviceAdded _ _) = EventTypeGroupMemberDeviceAdded"
| "type_of_event (GroupDeviceChainKeyAdded _ _) = EventTypeGroupDeviceChainKeyAdded"
| "type_of_event (MultiMemberGroupInitialMemberAnnounced _) =
     EventTypeMultiMemberGroupInitialMemberAnnounced"
| "type_of_event (MultiMemberGroupAdminRoleGranted _) = EventTypeMultiMemberGroupAdminRoleGranted"
| "type_of_event (AccountGroupJoined _) = EventTypeAccountGroupJoined"
| "type_of_event (AccountGroupLeft _) = EventTypeAccountGroupLeft"
| "type_of_event AccountContactRequestDisabled = EventTypeAccountContactRequestDisabled"
| "type_of_event AccountContactRequestEnabled = EventTypeAccountContactRequestEnabled"
| "type_of_event (AccountContactRequestReferenceReset _) =
     EventTypeAccountContactRequestReferenceReset"
| "type_of_event (AccountContactRequestOutgoingEnqueued _ _) =
     EventTypeAccountContactRequestOutgoingEnqueued"
| "type_of_event (AccountContactRequestOutgoingSent _) =
     EventTypeAccountContactRequestOutgoingSent"
| "type_of_event (AccountContactRequestIncomingReceived _ _ _) =
     EventTypeAccountContactRequestIncomingReceived"
| "type_of_event (AccountContactRequestIncomingDiscarded _) =
     EventTypeAccountContactRequestIncomingDiscarded"
| "type_of_event (AccountContactRequestIncomingAccepted _) =
     EventTypeAccountContactRequestIncomingAccepted"
| "type_of_event (AccountContactBlocked _) = EventTypeAccountContactBlocked"
| "type_of_event (AccountContactUnblocked _) = EventTypeAccountContactUnblocked"
| "type_of_event (ContactAliasKeyAdded _ _) = EventTypeContactAliasKeyAdded"
| "type_of_event (AccountServiceTokenAdded _) = EventTypeAccountServiceTokenAdded"
| "type_of_event (AccountServiceTokenRemoved _) = EventTypeAccountServiceTokenRemoved"
| "type_of_event GroupMetadataPayloadSent = EventTypeGroupMetadataPayloadSent"
| "type_of_event (AccountVerifiedCredentialRegistered _) =
     EventTypeAccountVerifiedCredentialRegistered"

fun induced_contact :: "event \<Rightarrow> (bytes \<times> ContactState) option" where
  "induced_contact (AccountContactRequestOutgoingEnqueued (Some c) _) =
     Some (PK c, ContactStateToRequest)"
| "induced_contact (AccountContactRequestOutgoingSent k) = Some (k, ContactStateAdded)"
| "induced_contact (AccountContactRequestIncomingReceived k _ _) = Some (k, ContactStateReceived)"
| "induced_contact (AccountContactRequestIncomingDiscarded k) = Some (k, ContactStateDiscarded)"
| "induced_contact (AccountContactRequestIncomingAccepted k) = Some (k, ContactStateAdded)"
| "induced_contact (AccountContactBlocked k) = Some (k, ContactStateBlocked)"
| "induced_contact (AccountContactUnblocked k) = Some (k, ContactStateRemoved)"
| "induced_contact _ = None"

fun induced_group :: "event \<Rightarrow> (bytes \<times> accountGroupJoinedState) option" where
  "induced_group (AccountGroupJoined (Some g)) = Some (PublicKey g, accountGroupJoinedStateJoined)"
| "induced_group (AccountGroupLeft k) = Some (k, accountGroupJoinedStateLeft)"
| "induced_group _ = None"

text \<open>What one call of a handler of the table can do to the index, as a relation: every
  handler either leaves the index as it is or makes exactly one of these changes.\<close>

inductive effect :: "env \<Rightarrow> EventType \<Rightarrow> event \<Rightarrow> metadataStoreIndex \<Rightarrow> metadataStoreIndex \<Rightarrow> bool"
  for E ty ev where
  eff_none: "effect E ty ev m m"
| eff_device:
    "\<lbrakk>ty = EventTypeGroupMemberDeviceAdded;
      map_of (devices m) dpk = None; length mpk = 32; length dpk = 32;
      md = \<lparr>Member = Ed25519PublicKey mpk, Device = Ed25519PublicKey dpk\<rparr>\<rbrakk> \<Longrightarrow>
     effect E ty ev m
       (m\<lparr>devices := AList.update dpk md (devices m),
          members := AList.update mpk
             ((case map_of (members m) mpk of None \<Rightarrow> [] | Some mds \<Rightarrow> mds) @ [md]) (members m)\<rparr>)"
| eff_secret:
    "ty = EventTypeGroupDeviceChainKeyAdded \<Longrightarrow>
     effect E ty ev m (m\<lparr>sentSecrets := insert k (sentSecrets m)\<rparr>)"
| eff_admin:
    "\<lbrakk>ty = EventTypeMultiMemberGroupInitialMemberAnnounced; map_of (admins m) pk = None\<rbrakk> \<Longrightarrow>
     effect E ty ev m (m\<lparr>admins := admins m @ [(pk, key)]\<rparr>)"
| eff_group:
    "\<lbrakk>map_of (groups m) k = None; ty = type_of_event ev; induced_group ev = Some (k, ag_state g)\<rbrakk> \<Longrightarrow>
     effect E ty ev m (m\<lparr>groups := AList.update k g (groups m)\<rparr>)"
| eff_enabled:
    "\<lbrakk>ty = EventTypeAccountContactRequestDisabled \<or> ty = EventTypeAccountContactRequestEnabled;
      contactRequestEnabled m = None\<rbrakk> \<Longrightarrow>
     effect E ty ev m (m\<lparr>contactRequestEnabled := Some b\<rparr>)"
| eff_seed:
    "\<lbrakk>ty = EventTypeAccountContactRequestReferenceReset; contactRequestSeed m = None\<rbrakk> \<Longrightarrow>
     effect E ty ev m (m\<lparr>contactRequestSeed := s\<rparr>)"
| eff_token_added:
    "\<lbrakk>ty = EventTypeAccountServiceTokenAdded;
      map_of (serviceTokens m) k = None; TokenID E t = Some k\<rbrakk> \<Longrightarrow>
     effect E ty ev m (m\<lparr>serviceTokens := AList.update k t (serviceTokens m)\<rparr>)"
| eff_token_removed:
    "ty = EventTypeAccountServiceTokenRemoved \<Longrightarrow>
     effect E ty ev m (m\<lparr>serviceTokens := AList.update k None (serviceTokens m)\<rparr>)"
| eff_credential:
    "ty = EventTypeAccountVerifiedCredentialRegistered \<Longrightarrow>
     effect E ty ev m (m\<lparr>verifiedCredentials := verifiedCredentials m @ [c]\<rparr>)"
| eff_alias:
    "ty = EventTypeContactAliasKeyAdded \<Longrightarrow>
     effect E ty ev m (m\<lparr>eventsContactAddAliasKey := eventsContactAddAliasKey m @ [a]\<rparr>)"
| eff_fill:
    "\<lbrakk>ty = type_of_event ev; induced_contact ev = Some (k, st);
      map_of (contacts m) k = Some p; state c = state (heap m ! p);
      PK (contact c) = PK (contact (heap m ! p))\<rbrakk> \<Longrightarrow>
     effect E ty ev m (m\<lparr>heap := (heap m)[p := c]\<rparr>)"
| eff_new:
    "\<lbrakk>map_of (contacts m) k = None; ty = type_of_event ev; induced_contact ev = Some (k, state c);
      PK (contact c) = k;
      y = contactsFromGroupPK m \<or> (\<exists>g. y = AList.update g (length (heap m)) (contactsFromGroupPK m))\<rbrakk> \<Longrightarrow>
     effect E ty ev m
       (m\<lparr>heap := heap m @ [c], contacts := AList.update k (length (heap m)) (contacts m),
          contactRequestMetadata := x, contactsFromGroupPK := y\<rparr>)"

text \<open>The entries of the four maps that are never reset survive: a key of \<open>members\<close> keeps
  its list, possibly extended at the end.\<close>

definition kept :: "metadataStoreIndex \<Rightarrow> metadataStoreIndex \<Rightarrow> bool" where
  "kept m m' \<longleftrightarrow>
     (\<forall>k mds. map_of (members m) k = Some mds \<longrightarrow>
        (\<exists>mds'. map_of (members m') k = Some (mds @ mds'))) \<and>
     (\<forall>k md. map_of (devices m) k = Some md \<longrightarrow> map_of (devices m') k = Some md) \<and>
     set (admins m) \<subseteq> set (admins m') \<and>
     sentSecrets m \<subseteq> sentSecrets m'"

subsection \<open>Concrete inputs\<close>

text \<open>A decoder given by a table from entry hashes to results, a secret store that
  derives a contact group from the key, and a token id for two tokens.\<close>

definition ex_key :: "nat \<Rightarrow> bytes" where
  "ex_key n = replicate 32 (of_nat n)"

definition ex_env :: "(string \<times> (error + EventType \<times> event)) list \<Rightarrow> env" where
  "ex_env tbl =
     \<lparr>openMetadataEntry = (\<lambda>g e. case map_of tbl (GetHash e) of
                                     None \<Rightarrow> Inl (Errorf ''unable to open'')
                                   | Some r \<Rightarrow> r),
      GetGroupForContact = (\<lambda>pk. Inr \<lparr>PublicKey = Raw pk, GroupType = GroupTypeContact\<rparr>),
      TokenID = (\<lambda>t. if t = Some (ServiceToken [1]) then Some ''T1''
                      else if t = Some (ServiceToken [2]) then Some ''T2'' else None)\<rparr>"

definition ex_entry :: "string \<Rightarrow> Entry" where
  "ex_entry h = \<lparr>GetHash = h, payload = []\<rparr>"

definition ex_index :: "GroupType \<Rightarrow> metadataStoreIndex" where
  "ex_index t =
     newMetadataIndex \<lparr>PublicKey = ex_key 0, GroupType = t\<rparr>
       \<lparr>Member = Ed25519PublicKey (ex_key 1), Device = Ed25519PublicKey (ex_key 2)\<rparr> []"

text \<open>No entry of the list is skipped by the check of the handled events: the group is an
  account group, or the hashes are distinct and none is marked yet.\<close>

definition unskipped :: "metadataStoreIndex \<Rightarrow> Entry list \<Rightarrow> bool" where
  "unskipped m es \<longleftrightarrow>
     GroupType (group m) = GroupTypeAccount \<or>
     (distinct (map GetHash es) \<and> handledEvents m \<inter> GetHash ` set es = {})"

text \<open>The invariant of the member and device registries: the keys of both maps are
  distinct (they are Go maps); a list of bindings is never empty, holds no device twice,
  and each of its bindings carries the member key of its list and is the binding the
  devices map holds for its device; and every binding of the devices map sits under its
  device key and in the list of its member.\<close>

definition registry_inv :: "metadataStoreIndex \<Rightarrow> bool" where
  "registry_inv m \<longleftrightarrow>
     distinct (map fst (members m)) \<and> distinct (map fst (devices m)) \<and>
     (\<forall>mpk mds. map_of (members m) mpk = Some mds \<longrightarrow>
        mds \<noteq> [] \<and> distinct (map Device mds) \<and>
        (\<forall>md \<in> set mds. Raw (Member md) = mpk \<and>
                        map_of (devices m) (Raw (Device md)) = Some md)) \<and>
     (\<forall>dpk md. map_of (devices m) dpk = Some md \<longrightarrow>
        Raw (Device md) = dpk \<and>
        (\<exists>mds. map_of (members m) (Raw (Member md)) = Some mds \<and> md \<in> set mds))"

text \<open>The contact an entry pertains to, with the state its event induces: the entry
  decodes, the envelope carries the type of the message, and the message is one of the
  seven that create a contact record.\<close>

definition contact_event :: "env \<Rightarrow> Group \<Rightarrow> Entry \<Rightarrow> (bytes \<times> ContactState) option" where
  "contact_event E g e =
     (case openMetadataEntry E g e of
        Inl _ \<Rightarrow> None
      | Inr (ty, ev) \<Rightarrow> if ty = type_of_event ev then induced_contact ev else None)"

text \<open>The state induced by the newest entry, in log order (oldest first), that pertains to
  the contact \<open>k\<close>.\<close>

fun newest_contact_state :: "env \<Rightarrow> Group \<Rightarrow> Entry list \<Rightarrow> bytes \<Rightarrow> ContactState option" where
  "newest_contact_state E g [] k = None"
| "newest_contact_state E g (e # es) k =
     (case newest_contact_state E g es k of
        Some st \<Rightarrow> Some st
      | None \<Rightarrow>
          (case contact_event E g e of
             None \<Rightarrow> None
           | Some (k', st) \<Rightarrow> if k' = k then Some st else None))"

text \<open>The group an entry pertains to, with the state its event induces, and the state
  induced by the newest such entry in log order.\<close>

definition group_event :: "env \<Rightarrow> Group \<Rightarrow> Entry \<Rightarrow> (bytes \<times> accountGroupJoinedState) option" where
  "group_event E g e =
     (case openMetadataEntry E g e of
        Inl _ \<Rightarrow> None
      | Inr (ty, ev) \<Rightarrow> if ty = type_of_event ev then induced_group ev else None)"

fun newest_group_state ::
  "env \<Rightarrow> Group \<Rightarrow> Entry list \<Rightarrow> bytes \<Rightarrow> accountGroupJoinedState option" where
  "newest_group_state E g [] k = None"
| "newest_group_state E g (e # es) k =
     (case newest_group_state E g es k of
        Some st \<Rightarrow> Some st
      | None \<Rightarrow>
          (case group_event E g e of
             None \<Rightarrow> None
           | Some (k', st) \<Rightarrow> if k' = k then Some st else None))"

text \<open>The entry is a removal of the service token \<open>tokenID\<close>: it decodes to an
  AccountServiceTokenRemoved message under its event type.\<close>

definition removes_token :: "env \<Rightarrow> Group \<Rightarrow> Entry \<Rightarrow> string \<Rightarrow> bool" where
  "removes_token E g e tokenID \<longleftrightarrow>
     openMetadataEntry E g e =
       Inr (EventTypeAccountServiceTokenRemoved, AccountServiceTokenRemoved tokenID)"

text \<open>Every token stored in the registry sits under its own token id.\<close>

definition tokens_keyed :: "env \<Rightarrow> metadataStoreIndex \<Rightarrow> bool" where
  "tokens_keyed E m \<longleftrightarrow>
     (\<forall>k t. map_of (serviceTokens m) k = Some (Some t) \<longrightarrow> TokenID E (Some t) = Some k)"

text \<open>The alias-key event an entry stages, if any; the sender of a staged event belongs
  to the own member; and what the post action leaves in \<open>otherAliasKey\<close> after a queue
  it drained without an error.\<close>

definition alias_of :: "env \<Rightarrow> Group \<Rightarrow> Entry \<Rightarrow> (bytes \<times> bytes) list" where
  "alias_of E g e =
     (case openMetadataEntry E g e of
        Inl _ \<Rightarrow> []
      | Inr (ty, ev) \<Rightarrow>
          if ty = EventTypeContactAliasKeyAdded
          then (case ev of ContactAliasKeyAdded DevicePK AliasPK \<Rightarrow> [(DevicePK, AliasPK)] | _ \<Rightarrow> [])
          else [])"

definition own_sender :: "metadataStoreIndex \<Rightarrow> bytes \<times> bytes \<Rightarrow> bool" where
  "own_sender m a \<longleftrightarrow> unsafeGetMemberByDevice m (fst a) = Inr (Member (ownMemberDevice m))"

definition last_foreign_alias :: "metadataStoreIndex \<Rightarrow> (bytes \<times> bytes) list \<Rightarrow> bytes option" where
  "last_foreign_alias m q =
     (case filter (\<lambda>a. \<not> own_sender m a) q of
        [] \<Rightarrow> None
      | x # xs \<Rightarrow> Some (snd (last (x # xs))))"

text \<open>The queue the post action drains at the end of \<open>UpdateIndex\<close>: what an earlier call
  left in it, then the alias-key events of the log in the order of the replay.\<close>

definition staged_aliases :: "env \<Rightarrow> metadataStoreIndex \<Rightarrow> Entry list \<Rightarrow> (bytes \<times> bytes) list" where
  "staged_aliases E m entries =
     eventsContactAddAliasKey m @ concat (map (alias_of E (group m)) (rev entries))"

text \<open>What a caller can do with a \<open>*AccountContact\<close> it was given: assign a field of the
  record it points to, here \<open>p.state = s\<close>.\<close>

definition caller_sets_state :: "addr \<Rightarrow> ContactState \<Rightarrow> metadataStoreIndex \<Rightarrow> metadataStoreIndex" where
  "caller_sets_state p s m = m\<lparr>heap := (heap m)[p := (heap m ! p)\<lparr>state := s\<rparr>]\<rparr>"

text \<open>The contact records by value: every key of the contacts map with the record its
  pointer leads to. The pointers of the map are well formed when every key and every
  address occurs once and every address is allocated.\<close>

definition contact_values :: "metadataStoreIndex \<Rightarrow> (bytes \<times> AccountContact) list" where
  "contact_values m = map (\<lambda>(k, p). (k, heap m ! p)) (contacts m)"

definition contacts_wf :: "metadataStoreIndex \<Rightarrow> bool" where
  "contacts_wf m \<longleftrightarrow>
     distinct (map fst (contacts m)) \<and> distinct (map snd (contacts m)) \<and>
     (\<forall>p \<in> set (map snd (contacts m)). p < length (heap m))"

text \<open>Two indexes agree on all that decides how the handlers of the per-replay state run,
  contact records taken by value.\<close>

definition sim :: "metadataStoreIndex \<Rightarrow> metadataStoreIndex \<Rightarrow> bool" where
  "sim s t \<longleftrightarrow>
     group s = group t \<and> ownMemberDevice s = ownMemberDevice t \<and>
     handledEvents s = handledEvents t \<and> groups s = groups t \<and>
     serviceTokens s = serviceTokens t \<and>
     contactRequestEnabled s = contactRequestEnabled t \<and>
     contactRequestSeed s = contactRequestSeed t \<and>
     verifiedCredentials s = verifiedCredentials t \<and>
     contact_values s = contact_values t \<and> contacts_wf s \<and> contacts_wf t"

text \<open>The three maps that are never reset and are keyed by raw bytes are the same in both
  indexes.\<close>

definition same_registry :: "metadataStoreIndex \<Rightarrow> metadataStoreIndex \<Rightarrow> bool" where
  "same_registry s t \<longleftrightarrow>
     members s = members t \<and> devices s = devices t \<and> sentSecrets s = sentSecrets t"

text \<open>The seed and the metadata an event brings for its contact, the record a creating
  event allocates, and the record an event leaves when its contact exists already.\<close>

fun event_seed :: "event \<Rightarrow> bytes option" where
  "event_seed (AccountContactRequestOutgoingEnqueued (Some c) _) = PublicRendezvousSeed c"
| "event_seed (AccountContactRequestIncomingReceived _ sd _) = sd"
| "event_seed _ = None"

fun event_metadata :: "event \<Rightarrow> bytes option" where
  "event_metadata (AccountContactRequestOutgoingEnqueued (Some c) _) = Metadata c"
| "event_metadata (AccountContactRequestIncomingReceived _ _ md) = md"
| "event_metadata _ = None"

definition filled :: "event \<Rightarrow> AccountContact \<Rightarrow> AccountContact" where
  "filled ev c =
     (let c1 = (if Metadata (contact c) = None
                then c\<lparr>contact := (contact c)\<lparr>Metadata := event_metadata ev\<rparr>\<rparr> else c);
          c2 = (if PublicRendezvousSeed (contact c1) = None
                then c1\<lparr>contact := (contact c1)\<lparr>PublicRendezvousSeed := event_seed ev\<rparr>\<rparr>
                else c1)
      in c2)"

text \<open>A step that leaves all of this alone.\<close>

definition untouched :: "metadataStoreIndex \<Rightarrow> metadataStoreIndex \<Rightarrow> bool" where
  "untouched m m' \<longleftrightarrow>
     group m' = group m \<and> ownMemberDevice m' = ownMemberDevice m \<and>
     handledEvents m' = handledEvents m \<and> groups m' = groups m \<and>
     serviceTokens m' = serviceTokens m \<and>
     contactRequestEnabled m' = contactRequestEnabled m \<and>
     contactRequestSeed m' = contactRequestSeed m \<and>
     verifiedCredentials m' = verifiedCredentials m \<and>
     contacts m' = contacts m \<and> heap m' = heap m"

text \<open>Every device and sent secret of the first index is known to the second.\<close>

definition registry_contains :: "metadataStoreIndex \<Rightarrow> metadataStoreIndex \<Rightarrow> bool" where
  "registry_contains s t \<longleftrightarrow>
     (\<forall>k. map_of (devices s) k \<noteq> None \<longrightarrow> map_of (devices t) k \<noteq> None) \<and>
     sentSecrets s \<subseteq> sentSecrets t"

text \<open>The results of the two queries that return pointers, by value, and the answers of
  all queries of an index: those of \<open>listAdmins\<close>, and those of the other queries.\<close>

definition listContacts_values :: "metadataStoreIndex \<Rightarrow> (bytes \<times> AccountContact) list" where
  "listContacts_values m =
     (case listContacts m of (cs, m') \<Rightarrow> map (\<lambda>(k, p). (k, heap m' ! p)) cs)"

definition getContact_value :: "metadataStoreIndex \<Rightarrow> PubKey \<Rightarrow> error + AccountContact" where
  "getContact_value m pk =
     (case getContact m pk of Inl e \<Rightarrow> Inl e | Inr p \<Rightarrow> Inr (heap m ! p))"

definition other_queries ::
  "metadataStoreIndex \<Rightarrow>
     nat \<times> nat \<times> PubKey list option \<times> PubKey list \<times> PubKey list \<times>
     ServiceToken list \<times> bytes list \<times> bool \<times> bytes option \<times>
     (bytes \<times> AccountContact) list \<times> (PubKey \<Rightarrow> error + PubKey) \<times>
     (PubKey \<Rightarrow> error + PubKey list) \<times> (PubKey \<Rightarrow> bool) \<times>
     (PubKey \<Rightarrow> error + AccountContact)" where
  "other_queries m =
     (MemberCount m, DeviceCount m, listMembers m, listDevices m,
      listOtherMembersDevices m, listServiceTokens m, listVerifiedCredentials m,
      contactRequestsEnabled m, contactRequestsSeed m, listContacts_values m,
      (\<lambda>pk. getMemberByDevice m pk), (\<lambda>pk. getDevicesForMember m pk),
      (\<lambda>pk. areSecretsAlreadySent m pk), (\<lambda>pk. getContact_value m pk))"

definition query_surface where
  "query_surface m = (listAdmins m, other_queries m)"

text \<open>The two nil dereferences of the handlers: \<open>handleGroupJoined\<close> reads
  \<open>evt.Group.PublicKey\<close> of an event that has no group, and
  \<open>handleAccountServiceTokenAdded\<close> asks a token for its id where \<open>TokenID()\<close> panics. An
  entry makes the replay panic when it decodes to such an event under the event type of
  that handler.\<close>

definition panics :: "env \<Rightarrow> EventType \<Rightarrow> event \<Rightarrow> bool" where
  "panics E ty ev =
     (case ev of
        AccountGroupJoined evtGroup \<Rightarrow> ty = EventTypeAccountGroupJoined \<and> evtGroup = None
      | AccountServiceTokenAdded t \<Rightarrow>
          ty = EventTypeAccountServiceTokenAdded \<and> TokenID E t = None
      | _ \<Rightarrow> False)"

definition entry_panics :: "env \<Rightarrow> Group \<Rightarrow> Entry \<Rightarrow> bool" where
  "entry_panics E g e =
     (case openMetadataEntry E g e of
        Inl _ \<Rightarrow> False
      | Inr (ty, ev) \<Rightarrow> panics E ty ev)"

text \<open>A log of contact events, oldest entry first, with its decoder: a request enqueued
  and then sent to contact 7; a request received from contact 8, who is blocked later;
  requests discarded, accepted, a contact blocked and one unblocked.\<close>

definition ex_contacts_env :: env where
  "ex_contacts_env =
     ex_env [(''h1'', Inr (EventTypeAccountContactRequestOutgoingEnqueued,
                 AccountContactRequestOutgoingEnqueued
                   (Some \<lparr>PK = ex_key 7, PublicRendezvousSeed = Some [1], Metadata = Some [2]\<rparr>)
                   None)),
             (''h2'', Inr (EventTypeAccountContactRequestOutgoingSent,
                 AccountContactRequestOutgoingSent (ex_key 7))),
             (''h3'', Inr (EventTypeAccountContactRequestIncomingReceived,
                 AccountContactRequestIncomingReceived (ex_key 8) (Some [3]) (Some [4]))),
             (''h4'', Inr (EventTypeAccountContactRequestIncomingDiscarded,
                 AccountContactRequestIncomingDiscarded (ex_key 9))),
             (''h5'', Inr (EventTypeAccountContactRequestIncomingAccepted,
                 AccountContactRequestIncomingAccepted (ex_key 10))),
             (''h6'', Inr (EventTypeAccountContactBlocked, AccountContactBlocked (ex_key 11))),
             (''h7'', Inr (EventTypeAccountContactUnblocked, AccountContactUnblocked (ex_key 12))),
             (''h8'', Inr (EventTypeAccountContactBlocked, AccountContactBlocked (ex_key 8)))]"

definition ex_contacts_log :: "Entry list" where
  "ex_contacts_log =
     [ex_entry ''h1'', ex_entry ''h2'', ex_entry ''h3'', ex_entry ''h4'',
      ex_entry ''h5'', ex_entry ''h6'', ex_entry ''h7'', ex_entry ''h8'']"

text \<open>A log of roster events, oldest entry first, with its decoder: group 8 joined and
  then left, group 9 left and then joined.\<close>

definition ex_groups_env :: env where
  "ex_groups_env =
     ex_env [(''h1'', Inr (EventTypeAccountGroupJoined,
                 AccountGroupJoined (Some \<lparr>PublicKey = ex_key 8, GroupType = GroupTypeMultiMember\<rparr>))),
             (''h2'', Inr (EventTypeAccountGroupLeft, AccountGroupLeft (ex_key 8))),
             (''h3'', Inr (EventTypeAccountGroupLeft, AccountGroupLeft (ex_key 9))),
             (''h4'', Inr (EventTypeAccountGroupJoined,
                 AccountGroupJoined (Some \<lparr>PublicKey = ex_key 9, GroupType = GroupTypeContact\<rparr>)))]"

definition ex_groups_log :: "Entry list" where
  "ex_groups_log = [ex_entry ''h1'', ex_entry ''h2'', ex_entry ''h3'', ex_entry ''h4'']"

text \<open>The indexes a program reaches: a new index, then calls of \<open>UpdateIndex\<close> over a log
  that only grows, the log being append-only; between the calls the store of the contact
  records may change (queries allocate in it, callers write through the pointers they
  were given). \<open>reach E m L\<close>: the index \<open>m\<close> is reached, and \<open>L\<close> is the log of the last
  call, oldest entry first.\<close>

inductive reach :: "env \<Rightarrow> metadataStoreIndex \<Rightarrow> Entry list \<Rightarrow> bool" for E where
  reach_new: "reach E (newMetadataIndex g md h) []"
| reach_call:
    "\<lbrakk>reach E m L; UpdateIndex E m (L @ ext) = Some (r, m')\<rbrakk> \<Longrightarrow> reach E m' (L @ ext)"
| reach_store: "reach E m L \<Longrightarrow> reach E (m\<lparr>heap := h\<rparr>) L"

text \<open>Scenario S5 of the specification, oldest entry first, with its decoder: the own
  device, its alias key, another member's device, its alias key.\<close>

definition ex_alias_env :: env where
  "ex_alias_env =
     ex_env [(''h1'', Inr (EventTypeGroupMemberDeviceAdded,
                           GroupMemberDeviceAdded (ex_key 1) (ex_key 2))),
             (''h2'', Inr (EventTypeContactAliasKeyAdded,
                           ContactAliasKeyAdded (ex_key 2) (ex_key 9))),
             (''h3'', Inr (EventTypeGroupMemberDeviceAdded,
                           GroupMemberDeviceAdded (ex_key 3) (ex_key 4))),
             (''h4'', Inr (EventTypeContactAliasKeyAdded,
                           ContactAliasKeyAdded (ex_key 4) (ex_key 10)))]"

section \<open>Proofs\<close>

lemmas handler_defs =
  handleContactBlocked_def handleContactRequestDisabled_def handleContactRequestEnabled_def
  handleContactRequestIncomingAccepted_def handleContactRequestIncomingDiscarded_def
  handleContactRequestIncomingReceived_def handleContactRequestOutgoingEnqueued_def
  handleContactRequestOutgoingSent_def handleContactRequestReferenceReset_def
  handleContactUnblocked_def handleGroupJoined_def handleGroupLeft_def
  handleContactAliasKeyAdded_def handleGroupDeviceChainKeyAdded_def
  handleGroupMemberDeviceAdded_def handleMultiMemberGrantAdminRole_def
  handleMultiMemberInitialMember_def handleAccountServiceTokenAdded_def
  handleAccountServiceTokenRemoved_def handleGroupMetadataPayloadSent_def
  handleAccountVerifiedCredentialRegistered_def

lemma update_absent: "map_of al k = None \<Longrightarrow> AList.update k v al = al @ [(k, v)]"
  by (induction al) (auto split: if_splits)

lemma fold_max_ge: "b \<le> fold max xs (b::nat)"
  by (induction xs arbitrary: b) (auto intro: order_trans[OF max.cobounded2])

lemma fold_max_upper: "x \<in> set xs \<Longrightarrow> x \<le> fold max xs (b::nat)"
proof (induction xs arbitrary: b)
  case Nil
  then show ?case by simp
next
  case (Cons a xs)
  show ?case
  proof (cases "x = a")
    case True
    have "a \<le> max a b" by simp
    also have "\<dots> \<le> fold max xs (max a b)" by (rule fold_max_ge)
    finally show ?thesis using True by simp
  next
    case False
    with Cons.prems have "x \<in> set xs" by simp
    from Cons.IH[OF this] show ?thesis by simp
  qed
qed

text \<open>The pointer of a new key object is no key of the admins map: the lookup of
  \<open>handleMultiMemberInitialMember\<close> never finds it.\<close>

lemma new_PubKey_fresh: "map_of (admins m) (new_PubKey m) = None"
proof -
  have "new_PubKey m \<notin> fst ` set (admins m)"
  proof
    assume "new_PubKey m \<in> fst ` set (admins m)"
    then have "new_PubKey m \<in> set (map fst (admins m))" by simp
    from fold_max_upper[OF this, of 0] show False by (simp add: new_PubKey_def)
  qed
  then show ?thesis by (simp add: map_of_eq_None_iff)
qed

lemma handleMultiMemberInitialMember_adds:
  "length MemberPK = 32 \<Longrightarrow>
   handleMultiMemberInitialMember E (MultiMemberGroupInitialMemberAnnounced MemberPK) m =
     Some (None, m\<lparr>admins := admins m @ [(new_PubKey m, Ed25519PublicKey MemberPK)]\<rparr>)"
  by (simp add: handleMultiMemberInitialMember_def UnmarshalEd25519PublicKey_def Let_def
      new_PubKey_fresh update_absent)

lemma run_handlers_invariant:
  assumes "run_handlers E hs ev le m = Some (r, m')" and "Q m"
    and "\<And>h ev m r m'. h \<in> set hs \<Longrightarrow> h E ev m = Some (r, m') \<Longrightarrow> Q m \<Longrightarrow> Q m'"
    and "\<And>l m. Q m \<Longrightarrow> Q (log_error l m)"
  shows "Q m'"
  using assms
proof (induction hs arbitrary: le m)
  case Nil
  then show ?case by simp
next
  case (Cons h hs)
  from Cons.prems(1) obtain r1 m1 where h1: "h E ev m = Some (r1, m1)"
    by (auto split: option.splits)
  have q1: "Q m1" using Cons.prems(3)[of h ev m r1 m1] h1 Cons.prems(2) by simp
  have step: "\<And>h ev m r m'. h \<in> set hs \<Longrightarrow> h E ev m = Some (r, m') \<Longrightarrow> Q m \<Longrightarrow> Q m'"
    using Cons.prems(3) by (meson list.set_intros(2))
  show ?case
  proof (cases r1)
    case None
    with Cons.prems(1) h1 have "run_handlers E hs ev le m1 = Some (r, m')" by simp
    then show ?thesis using Cons.IH[of le m1] q1 step Cons.prems(4) by blast
  next
    case (Some err)
    with Cons.prems(1) h1
    have "run_handlers E hs ev (Some err) (log_error (LogUnableToHandle err) m1) = Some (r, m')"
      by simp
    then show ?thesis
      using Cons.IH[of "Some err" "log_error (LogUnableToHandle err) m1"]
        Cons.prems(4)[OF q1] step Cons.prems(4) by blast
  qed
qed

lemma process_entry_invariant:
  assumes pe: "process_entry E m e = Some m'" and q: "Q m"
    and h: "\<And>ty hs h ev m r m'. eventHandlers ty = Some hs \<Longrightarrow> h \<in> set hs \<Longrightarrow>
                h E ev m = Some (r, m') \<Longrightarrow> Q m \<Longrightarrow> Q m'"
    and l: "\<And>l m. Q m \<Longrightarrow> Q (log_error l m)"
    and k: "\<And>e m. Q m \<Longrightarrow> Q (mark_handled e m)"
  shows "Q m'"
proof (cases "openMetadataEntry E (group m) e")
  case (Inl err)
  with pe q l show ?thesis by (auto simp: process_entry_def)
next
  case (Inr p)
  obtain ty ev where p: "p = (ty, ev)" by (cases p)
  show ?thesis
  proof (cases "eventHandlers ty")
    case None
    with pe Inr p q l k show ?thesis by (auto simp: process_entry_def)
  next
    case (Some hs)
    with pe Inr p obtain le m1 where rh: "run_handlers E hs ev None m = Some (le, m1)"
      and m': "m' = mark_handled e m1"
      by (auto simp: process_entry_def split: option.splits if_splits)
    have "Q m1"
      by (rule run_handlers_invariant[where Q = Q, OF rh q]) (auto intro: h[OF Some] l)
    with m' k show ?thesis by simp
  qed
qed

lemma replay_invariant:
  assumes "replay E m es = Some m'" and "Q m"
    and "\<And>ty hs h ev m r m'. eventHandlers ty = Some hs \<Longrightarrow> h \<in> set hs \<Longrightarrow>
                h E ev m = Some (r, m') \<Longrightarrow> Q m \<Longrightarrow> Q m'"
    and "\<And>l m. Q m \<Longrightarrow> Q (log_error l m)"
    and "\<And>e m. Q m \<Longrightarrow> Q (mark_handled e m)"
  shows "Q m'"
  using assms
proof (induction es arbitrary: m)
  case Nil
  then show ?case by simp
next
  case (Cons e es)
  from Cons.prems(1) obtain m1 where lb: "loop_body E m e = Some m1"
    and rest: "replay E m1 es = Some m'"
    by (auto split: option.splits)
  have "Q m1"
  proof (cases "GroupType (group m) \<noteq> GroupTypeAccount \<and> GetHash e \<in> handledEvents m")
    case True
    with lb Cons.prems(2) show ?thesis by (simp add: loop_body_def)
  next
    case False
    with lb have "process_entry E m e = Some m1" by (auto simp: loop_body_def)
    then show ?thesis
      by (rule process_entry_invariant[where Q = Q, OF _ Cons.prems(2)])
         (blast intro: Cons.prems(3) Cons.prems(4) Cons.prems(5))+
  qed
  then show ?case
    using Cons.IH[OF rest] Cons.prems(3) Cons.prems(4) Cons.prems(5) by blast
qed



lemma registerContactFromGroupPK_frame:
  "registerContactFromGroupPK E ac m = (r, m') \<Longrightarrow>
     m' = m \<or> (\<exists>g. m' = m\<lparr>contactsFromGroupPK := AList.update g ac (contactsFromGroupPK m)\<rparr>)"
  by (auto simp: registerContactFromGroupPK_def split: if_splits sum.splits)

lemma new_contact_effect:
  assumes "map_of (contacts m) k = None" "ty = type_of_event ev" "induced_contact ev = Some (k, state c)"
    "PK (contact c) = k"
    "registerContactFromGroupPK E (length (heap m))
       (m\<lparr>contactRequestMetadata := x, heap := heap m @ [c],
          contacts := AList.update k (length (heap m)) (contacts m)\<rparr>) = (r, m')"
  shows "effect E ty ev m m'"
proof -
  let ?m2 = "m\<lparr>contactRequestMetadata := x, heap := heap m @ [c],
          contacts := AList.update k (length (heap m)) (contacts m)\<rparr>"
  let ?R = "\<lambda>y. m\<lparr>heap := heap m @ [c], contacts := AList.update k (length (heap m)) (contacts m),
          contactRequestMetadata := x, contactsFromGroupPK := y\<rparr>"
  from registerContactFromGroupPK_frame[OF assms(5)]
  consider "m' = ?m2"
    | g where "m' = ?m2\<lparr>contactsFromGroupPK := AList.update g (length (heap m)) (contactsFromGroupPK ?m2)\<rparr>"
    by blast
  then show ?thesis
  proof cases
    case 1
    then have "m' = ?R (contactsFromGroupPK m)" by simp
    then show ?thesis using eff_new[OF assms(1-4), of "contactsFromGroupPK m" E x] by simp
  next
    case 2
    then have "m' = ?R (AList.update g (length (heap m)) (contactsFromGroupPK m))" by simp
    then show ?thesis
      using eff_new[OF assms(1-4), of "AList.update g (length (heap m)) (contactsFromGroupPK m)" E x]
      by auto
  qed
qed

lemma handleContactBlocked_effect:
  "handleContactBlocked E ev m = Some (r, m') \<Longrightarrow> effect E EventTypeAccountContactBlocked ev m m'"
proof (cases ev)
  case (AccountContactBlocked k)
  assume h: "handleContactBlocked E ev m = Some (r, m')"
  show ?thesis
  proof (cases "map_of (contacts m) k")
    case None
    show ?thesis
      apply (rule new_contact_effect[where k = k and x = "contactRequestMetadata m", OF None])
      using h None AccountContactBlocked
      apply (simp_all add: handleContactBlocked_def new_AccountContact_def)
      done
  next
    case (Some p)
    with h AccountContactBlocked show ?thesis
      by (simp add: handleContactBlocked_def eff_none)
  qed
qed (simp_all add: handleContactBlocked_def eff_none)


lemma handleContactRequestOutgoingSent_effect:
  "handleContactRequestOutgoingSent E ev m = Some (r, m') \<Longrightarrow> effect E EventTypeAccountContactRequestOutgoingSent ev m m'"
proof (cases ev)
  case (AccountContactRequestOutgoingSent k)
  assume h: "handleContactRequestOutgoingSent E ev m = Some (r, m')"
  show ?thesis
  proof (cases "map_of (contacts m) k")
    case None
    show ?thesis
      apply (rule new_contact_effect[where k = k and x = "contactRequestMetadata m", OF None])
      using h None AccountContactRequestOutgoingSent
      apply (simp_all add: handleContactRequestOutgoingSent_def new_AccountContact_def)
      done
  next
    case (Some p)
    with h AccountContactRequestOutgoingSent show ?thesis
      by (simp add: handleContactRequestOutgoingSent_def eff_none)
  qed
qed (simp_all add: handleContactRequestOutgoingSent_def eff_none)

lemma handleContactRequestIncomingDiscarded_effect:
  "handleContactRequestIncomingDiscarded E ev m = Some (r, m') \<Longrightarrow> effect E EventTypeAccountContactRequestIncomingDiscarded ev m m'"
proof (cases ev)
  case (AccountContactRequestIncomingDiscarded k)
  assume h: "handleContactRequestIncomingDiscarded E ev m = Some (r, m')"
  show ?thesis
  proof (cases "map_of (contacts m) k")
    case None
    show ?thesis
      apply (rule new_contact_effect[where k = k and x = "contactRequestMetadata m", OF None])
      using h None AccountContactRequestIncomingDiscarded
      apply (simp_all add: handleContactRequestIncomingDiscarded_def new_AccountContact_def)
      done
  next
    case (Some p)
    with h AccountContactRequestIncomingDiscarded show ?thesis
      by (simp add: handleContactRequestIncomingDiscarded_def eff_none)
  qed
qed (simp_all add: handleContactRequestIncomingDiscarded_def eff_none)

lemma handleContactRequestIncomingAccepted_effect:
  "handleContactRequestIncomingAccepted E ev m = Some (r, m') \<Longrightarrow> effect E EventTypeAccountContactRequestIncomingAccepted ev m m'"
proof (cases ev)
  case (AccountContactRequestIncomingAccepted k)
  assume h: "handleContactRequestIncomingAccepted E ev m = Some (r, m')"
  show ?thesis
  proof (cases "map_of (contacts m) k")
    case None
    show ?thesis
      apply (rule new_contact_effect[where k = k and x = "contactRequestMetadata m", OF None])
      using h None AccountContactRequestIncomingAccepted
      apply (simp_all add: handleContactRequestIncomingAccepted_def new_AccountContact_def)
      done
  next
    case (Some p)
    with h AccountContactRequestIncomingAccepted show ?thesis
      by (simp add: handleContactRequestIncomingAccepted_def eff_none)
  qed
qed (simp_all add: handleContactRequestIncomingAccepted_def eff_none)

lemma handleContactUnblocked_effect:
  "handleContactUnblocked E ev m = Some (r, m') \<Longrightarrow> effect E EventTypeAccountContactUnblocked ev m m'"
proof (cases ev)
  case (AccountContactUnblocked k)
  assume h: "handleContactUnblocked E ev m = Some (r, m')"
  show ?thesis
  proof (cases "map_of (contacts m) k")
    case None
    show ?thesis
      apply (rule new_contact_effect[where k = k and x = "contactRequestMetadata m", OF None])
      using h None AccountContactUnblocked
      apply (simp_all add: handleContactUnblocked_def new_AccountContact_def)
      done
  next
    case (Some p)
    with h AccountContactUnblocked show ?thesis
      by (simp add: handleContactUnblocked_def eff_none)
  qed
qed (simp_all add: handleContactUnblocked_def eff_none)

lemma fill_effect:
  assumes "ty = type_of_event ev" "induced_contact ev = Some (k, st)" "map_of (contacts m) k = Some p"
  shows "effect E ty ev m
     (m\<lparr>heap := (heap m)[p :=
        (let c = heap m ! p;
             c1 = (if Metadata (contact c) = None then c\<lparr>contact := (contact c)\<lparr>Metadata := md\<rparr>\<rparr> else c);
             c2 = (if PublicRendezvousSeed (contact c1) = None
                   then c1\<lparr>contact := (contact c1)\<lparr>PublicRendezvousSeed := sd\<rparr>\<rparr> else c1)
         in c2)]\<rparr>)"
  by (rule eff_fill[OF assms]) (simp_all add: Let_def)

lemma handleContactRequestIncomingReceived_effect:
  "handleContactRequestIncomingReceived E ev m = Some (r, m') \<Longrightarrow>
     effect E EventTypeAccountContactRequestIncomingReceived ev m m'"
proof (cases ev)
  case (AccountContactRequestIncomingReceived k sd md)
  assume h: "handleContactRequestIncomingReceived E ev m = Some (r, m')"
  show ?thesis
  proof (cases "map_of (contacts m) k")
    case None
    show ?thesis
      apply (rule new_contact_effect[where k = k and x = "contactRequestMetadata m", OF None])
      using h None AccountContactRequestIncomingReceived
      apply (simp_all add: handleContactRequestIncomingReceived_def new_AccountContact_def)
      done
  next
    case (Some p)
    with h AccountContactRequestIncomingReceived
    show ?thesis
      using fill_effect[OF _ _ Some, of EventTypeAccountContactRequestIncomingReceived ev
          ContactStateReceived E md sd]
      by (auto simp add: handleContactRequestIncomingReceived_def Let_def)
  qed
qed (simp_all add: handleContactRequestIncomingReceived_def eff_none)

lemma handleContactRequestOutgoingEnqueued_effect:
  "handleContactRequestOutgoingEnqueued E ev m = Some (r, m') \<Longrightarrow>
     effect E EventTypeAccountContactRequestOutgoingEnqueued ev m m'"
proof (cases ev)
  case (AccountContactRequestOutgoingEnqueued oc own)
  assume h: "handleContactRequestOutgoingEnqueued E ev m = Some (r, m')"
  show ?thesis
  proof (cases oc)
    case None
    with h AccountContactRequestOutgoingEnqueued show ?thesis
      by (simp add: handleContactRequestOutgoingEnqueued_def eff_none)
  next
    case (Some c)
    note c = Some
    show ?thesis
    proof (cases "map_of (contacts m) (PK c)")
      case None
      let ?x = "if (case map_of (contactRequestMetadata m) (PK c) of
                               None \<Rightarrow> True | Some data \<Rightarrow> len data = 0)
                then AList.update (PK c) own (contactRequestMetadata m)
                else contactRequestMetadata m"
      show ?thesis
        apply (rule new_contact_effect[where k = "PK c" and x = ?x, OF None])
        using h None AccountContactRequestOutgoingEnqueued c
           apply (simp_all add: handleContactRequestOutgoingEnqueued_def new_AccountContact_def
            split: if_splits)
        done
    next
      case (Some p)
      with h AccountContactRequestOutgoingEnqueued c
      show ?thesis
        using fill_effect[OF _ _ Some, of EventTypeAccountContactRequestOutgoingEnqueued ev
            ContactStateToRequest E "Metadata c" "PublicRendezvousSeed c"]
        by (auto simp add: handleContactRequestOutgoingEnqueued_def Let_def)
    qed
  qed
qed (simp_all add: handleContactRequestOutgoingEnqueued_def eff_none)

lemma handleGroupMemberDeviceAdded_effect:
  "handleGroupMemberDeviceAdded E ev m = Some (r, m') \<Longrightarrow>
     effect E EventTypeGroupMemberDeviceAdded ev m m'"
proof (cases ev)
  case (GroupMemberDeviceAdded mpk dpk)
  assume h: "handleGroupMemberDeviceAdded E ev m = Some (r, m')"
  show ?thesis
  proof (cases "length mpk = 32 \<and> length dpk = 32 \<and> map_of (devices m) dpk = None")
    case True
    let ?md = "\<lparr>Member = Ed25519PublicKey mpk, Device = Ed25519PublicKey dpk\<rparr>"
    from True h GroupMemberDeviceAdded
    have "m' = m\<lparr>devices := AList.update dpk ?md (devices m),
          members := AList.update mpk
             ((case map_of (members m) mpk of None \<Rightarrow> [] | Some mds \<Rightarrow> mds) @ [?md]) (members m)\<rparr>"
      by (simp add: handleGroupMemberDeviceAdded_def UnmarshalEd25519PublicKey_def
          NewMemberDevice_def Let_def)
    then show ?thesis
      using eff_device[of EventTypeGroupMemberDeviceAdded m dpk mpk ?md E] True by simp
  next
    case False
    with h GroupMemberDeviceAdded have "m' = m"
      by (auto simp: handleGroupMemberDeviceAdded_def UnmarshalEd25519PublicKey_def
          split: if_splits option.splits)
    then show ?thesis by (simp add: eff_none)
  qed
qed (simp_all add: handleGroupMemberDeviceAdded_def eff_none)

lemma handleGroupDeviceChainKeyAdded_effect:
  "handleGroupDeviceChainKeyAdded E ev m = Some (r, m') \<Longrightarrow>
     effect E EventTypeGroupDeviceChainKeyAdded ev m m'"
  by (cases ev)
     (auto simp: handleGroupDeviceChainKeyAdded_def UnmarshalEd25519PublicKey_def
        intro: eff_none eff_secret split: if_splits)

lemma handleMultiMemberInitialMember_effect:
  "handleMultiMemberInitialMember E ev m = Some (r, m') \<Longrightarrow>
     effect E EventTypeMultiMemberGroupInitialMemberAnnounced ev m m'"
  by (cases ev)
     (auto simp: handleMultiMemberInitialMember_def UnmarshalEd25519PublicKey_def
        Let_def update_absent intro: eff_none eff_admin split: if_splits)

lemma handleGroupJoined_effect:
  "handleGroupJoined E ev m = Some (r, m') \<Longrightarrow> effect E EventTypeAccountGroupJoined ev m m'"
  by (cases ev)
     (auto simp: handleGroupJoined_def intro!: eff_none eff_group split: option.splits)

lemma handleGroupLeft_effect:
  "handleGroupLeft E ev m = Some (r, m') \<Longrightarrow> effect E EventTypeAccountGroupLeft ev m m'"
  by (cases ev)
     (auto simp: handleGroupLeft_def intro!: eff_none eff_group split: option.splits)

lemma handleContactRequestDisabled_effect:
  "handleContactRequestDisabled E ev m = Some (r, m') \<Longrightarrow>
     effect E EventTypeAccountContactRequestDisabled ev m m'"
  by (cases ev)
     (auto simp: handleContactRequestDisabled_def intro: eff_none eff_enabled split: if_splits)

lemma handleContactRequestEnabled_effect:
  "handleContactRequestEnabled E ev m = Some (r, m') \<Longrightarrow>
     effect E EventTypeAccountContactRequestEnabled ev m m'"
  by (cases ev)
     (auto simp: handleContactRequestEnabled_def intro: eff_none eff_enabled split: if_splits)

lemma handleContactRequestReferenceReset_effect:
  "handleContactRequestReferenceReset E ev m = Some (r, m') \<Longrightarrow>
     effect E EventTypeAccountContactRequestReferenceReset ev m m'"
  by (cases ev)
     (auto simp: handleContactRequestReferenceReset_def intro: eff_none eff_seed split: if_splits)

lemma handleContactAliasKeyAdded_effect:
  "handleContactAliasKeyAdded E ev m = Some (r, m') \<Longrightarrow>
     effect E EventTypeContactAliasKeyAdded ev m m'"
  by (cases ev) (auto simp: handleContactAliasKeyAdded_def intro: eff_none eff_alias)

lemma handleAccountServiceTokenAdded_effect:
  "handleAccountServiceTokenAdded E ev m = Some (r, m') \<Longrightarrow>
     effect E EventTypeAccountServiceTokenAdded ev m m'"
  by (cases ev)
     (auto simp: handleAccountServiceTokenAdded_def intro: eff_none eff_token_added
        split: option.splits)

lemma handleAccountServiceTokenRemoved_effect:
  "handleAccountServiceTokenRemoved E ev m = Some (r, m') \<Longrightarrow>
     effect E EventTypeAccountServiceTokenRemoved ev m m'"
  by (cases ev)
     (auto simp: handleAccountServiceTokenRemoved_def intro: eff_none eff_token_removed)

lemma handleAccountVerifiedCredentialRegistered_effect:
  "handleAccountVerifiedCredentialRegistered E ev m = Some (r, m') \<Longrightarrow>
     effect E EventTypeAccountVerifiedCredentialRegistered ev m m'"
  by (cases ev)
     (auto simp: handleAccountVerifiedCredentialRegistered_def intro: eff_none eff_credential)

lemmas handler_effects =
  handleContactBlocked_effect handleContactRequestDisabled_effect
  handleContactRequestEnabled_effect handleContactRequestIncomingAccepted_effect
  handleContactRequestIncomingDiscarded_effect handleContactRequestIncomingReceived_effect
  handleContactRequestOutgoingEnqueued_effect handleContactRequestOutgoingSent_effect
  handleContactRequestReferenceReset_effect handleContactUnblocked_effect
  handleGroupJoined_effect handleGroupLeft_effect handleContactAliasKeyAdded_effect
  handleGroupDeviceChainKeyAdded_effect handleGroupMemberDeviceAdded_effect
  handleMultiMemberInitialMember_effect handleAccountServiceTokenAdded_effect
  handleAccountServiceTokenRemoved_effect handleAccountVerifiedCredentialRegistered_effect

lemma handlers_effect:
  assumes "eventHandlers ty = Some hs" "h \<in> set hs" "h E ev m = Some (r, m')"
  shows "effect E ty ev m m'"
  using assms
  by (cases ty)
     (auto simp: handleMultiMemberGrantAdminRole_def handleGroupMetadataPayloadSent_def
        intro: eff_none dest: handler_effects)


lemma replay_effect_invariant:
  assumes "replay E m es = Some m'" and "Q m"
    and "\<And>ty ev m m'. effect E ty ev m m' \<Longrightarrow> Q m \<Longrightarrow> Q m'"
    and "\<And>l m. Q m \<Longrightarrow> Q (log_error l m)"
    and "\<And>e m. Q m \<Longrightarrow> Q (mark_handled e m)"
  shows "Q m'"
  by (rule replay_invariant[where Q = Q, OF assms(1,2)])
     (blast intro: assms(3-5) handlers_effect)+

lemma kept_refl: "kept m m"
  by (simp add: kept_def)

lemma kept_trans:
  assumes ab: "kept a b" and bc: "kept b c"
  shows "kept a c"
  unfolding kept_def
proof (intro conjI allI impI)
  fix k mds assume "map_of (members a) k = Some mds"
  with ab obtain x where "map_of (members b) k = Some (mds @ x)" unfolding kept_def by blast
  with bc obtain y where "map_of (members c) k = Some ((mds @ x) @ y)"
    unfolding kept_def by blast
  then show "\<exists>mds'. map_of (members c) k = Some (mds @ mds')" by simp
next
  fix k md assume "map_of (devices a) k = Some md"
  with ab bc show "map_of (devices c) k = Some md" by (simp add: kept_def)
next
  from ab bc show "set (admins a) \<subseteq> set (admins c)" unfolding kept_def by blast
  from ab bc show "sentSecrets a \<subseteq> sentSecrets c" unfolding kept_def by blast
qed

lemma effect_kept: "effect E ty ev m m' \<Longrightarrow> kept m m'"
proof (induction rule: effect.induct)
  case (eff_device m dpk mpk md)
  then show ?case by (auto simp: kept_def update_conv')
qed (auto simp: kept_def)

lemma replay_kept:
  assumes "replay E m es = Some m'"
  shows "kept m m'"
proof (rule replay_effect_invariant[where Q = "kept m", OF assms kept_refl])
  show "kept m b" if "effect E ty ev a b" "kept m a" for ty ev a b
    using that effect_kept kept_trans by blast
  show "kept m (log_error l a)" if "kept m a" for l a
    using that by (simp add: kept_def log_error_def)
  show "kept m (mark_handled e a)" if "kept m a" for e a
    using that by (simp add: kept_def mark_handled_def)
qed

lemma postHandlerSentAliases_loop_frame:
  "postHandlerSentAliases_loop q m = (r, m') \<Longrightarrow>
     \<exists>a b c. m' = m\<lparr>eventsContactAddAliasKey := a, ownAliasKeySent := b, otherAliasKey := c\<rparr>"
proof (induction q m rule: postHandlerSentAliases_loop.induct)
  case (1 m)
  then have "m' = m\<lparr>eventsContactAddAliasKey := [], ownAliasKeySent := ownAliasKeySent m,
      otherAliasKey := otherAliasKey m\<rparr>" by auto
  then show ?case by blast
next
  case (2 DevicePK AliasPK evts m)
  show ?case
  proof (cases "unsafeGetMemberByDevice m DevicePK")
    case (Inl e)
    with 2(3) have "m' = m\<lparr>eventsContactAddAliasKey := eventsContactAddAliasKey m,
       ownAliasKeySent := ownAliasKeySent m, otherAliasKey := otherAliasKey m\<rparr>" by auto
    then show ?thesis by blast
  next
    case (Inr pk)
    show ?thesis
    proof (cases "pk = Member (ownMemberDevice m)")
      case True
      with Inr 2(3) have "postHandlerSentAliases_loop evts (m\<lparr>ownAliasKeySent := True\<rparr>) = (r, m')"
        by simp
      from 2(1)[OF Inr True this] show ?thesis by auto
    next
      case False
      show ?thesis
      proof (cases "length AliasPK \<noteq> KeySize")
        case True
        with Inr False 2(3) have "m' = m\<lparr>eventsContactAddAliasKey := eventsContactAddAliasKey m,
           ownAliasKeySent := ownAliasKeySent m, otherAliasKey := otherAliasKey m\<rparr>" by auto
        then show ?thesis by blast
      next
        case n: False
        with Inr False 2(3)
        have "postHandlerSentAliases_loop evts (m\<lparr>otherAliasKey := Some AliasPK\<rparr>) = (r, m')"
          by simp
        from 2(2)[OF Inr False n this] show ?thesis by auto
      qed
    qed
  qed
qed

lemma run_postIndexActions_frame:
  "run_postIndexActions postIndexActions m = (r, m') \<Longrightarrow>
     \<exists>a b c. m' = m\<lparr>eventsContactAddAliasKey := a, ownAliasKeySent := b, otherAliasKey := c\<rparr>"
  by (auto simp: postIndexActions_def postHandlerSentAliases_def split: prod.splits option.splits
      dest: postHandlerSentAliases_loop_frame)

lemma ex_key_simps [simp]: "length (ex_key n) = 32" 
  by (simp_all add: ex_key_def)

lemma ex_key_eq [simp]: "ex_key n = ex_key k \<longleftrightarrow> (of_nat n :: byte) = of_nat k"
  by (simp add: ex_key_def replicate_eq_replicate)

lemmas eval_defs = UpdateIndex_def reset_def loop_body_def process_entry_def mark_handled_def
  log_error_def postIndexActions_def postHandlerSentAliases_def ex_env_def ex_entry_def
  ex_index_def newMetadataIndex_def new_AccountContact_def registerContactFromGroupPK_def
  UnmarshalEd25519PublicKey_def NewMemberDevice_def unsafeGetMemberByDevice_def KeySize_def
  Let_def

lemma eventHandlers_single:
  "eventHandlers ty = Some hs \<Longrightarrow> \<exists>h. hs = [h]"
  by (cases ty) auto

lemma process_entry_cases:
  assumes "process_entry E m e = Some m'"
  obtains (undecodable) err where "openMetadataEntry E (group m) e = Inl err"
      "m' = log_error (LogUnableToOpen err) m"
  | (unhandled) ty ev where "openMetadataEntry E (group m) e = Inr (ty, ev)"
      "eventHandlers ty = None"
      "m' = log_error (LogHandlerNotFound ty) (mark_handled e m)"
  | (handled) ty ev h r m1 where "openMetadataEntry E (group m) e = Inr (ty, ev)"
      "eventHandlers ty = Some [h]" "h E ev m = Some (r, m1)" "effect E ty ev m m1"
      "m' = mark_handled e (case r of None \<Rightarrow> m1 | Some err \<Rightarrow> log_error (LogUnableToHandle err) m1)"
proof (cases "openMetadataEntry E (group m) e")
  case (Inl err)
  with assms have "m' = log_error (LogUnableToOpen err) m" by (simp add: process_entry_def)
  with Inl show ?thesis by (rule undecodable)
next
  case (Inr p)
  obtain ty ev where p: "p = (ty, ev)" by (cases p)
  show ?thesis
  proof (cases "eventHandlers ty")
    case None
    with assms Inr p have "m' = log_error (LogHandlerNotFound ty) (mark_handled e m)"
      by (simp add: process_entry_def)
    with Inr p None show ?thesis using unhandled by simp
  next
    case (Some hs)
    then obtain h where hs: "hs = [h]" using eventHandlers_single by blast
    from assms Inr p Some hs obtain r m1 where h: "h E ev m = Some (r, m1)"
      by (auto simp: process_entry_def split: option.splits)
    have eff: "effect E ty ev m m1"
      by (rule handlers_effect[where h = h, OF Some _ h]) (simp add: hs)
    from assms Inr p Some hs h
    have "m' = mark_handled e (case r of None \<Rightarrow> m1 | Some err \<Rightarrow> log_error (LogUnableToHandle err) m1)"
      by (cases r) (auto simp: process_entry_def)
    with Inr p Some hs h eff show ?thesis using handled by simp
  qed
qed

lemma effect_group [simp]: "effect E ty ev m m' \<Longrightarrow> group m' = group m"
  by (induction rule: effect.induct) auto

lemma effect_handledEvents [simp]: "effect E ty ev m m' \<Longrightarrow> handledEvents m' = handledEvents m"
  by (induction rule: effect.induct) auto

lemma effect_logger [simp]: "effect E ty ev m m' \<Longrightarrow> logger m' = logger m"
  by (induction rule: effect.induct) auto

lemma effect_ownMemberDevice [simp]: "effect E ty ev m m' \<Longrightarrow> ownMemberDevice m' = ownMemberDevice m"
  by (induction rule: effect.induct) auto

lemma process_entry_group: "process_entry E m e = Some m' \<Longrightarrow> group m' = group m"
  by (erule process_entry_cases) (auto simp: log_error_def mark_handled_def split: option.splits)

lemma process_entry_handledEvents:
  "process_entry E m e = Some m' \<Longrightarrow>
     handledEvents m' = (if isl (openMetadataEntry E (group m) e) then handledEvents m
                         else insert (GetHash e) (handledEvents m))"
  by (erule process_entry_cases) (auto simp: log_error_def mark_handled_def split: option.splits)

lemma loop_body_group: "loop_body E m e = Some m' \<Longrightarrow> group m' = group m"
  by (auto simp: loop_body_def Let_def process_entry_group split: if_splits)

lemma replay_group: "replay E m es = Some m' \<Longrightarrow> group m' = group m"
  by (induction es arbitrary: m) (auto split: option.splits dest: loop_body_group)

lemma loop_body_handledEvents:
  "loop_body E m e = Some m' \<Longrightarrow>
     handledEvents m' = (if isl (openMetadataEntry E (group m) e) then handledEvents m
                         else insert (GetHash e) (handledEvents m))"
  by (auto simp: loop_body_def Let_def process_entry_handledEvents split: if_splits)

lemma replay_handledEvents:
  "replay E m es = Some m' \<Longrightarrow>
     handledEvents m' =
       handledEvents m \<union> GetHash ` {e \<in> set es. \<not> isl (openMetadataEntry E (group m) e)}"
proof (induction es arbitrary: m)
  case Nil
  then show ?case by simp
next
  case (Cons e es)
  from Cons.prems obtain m1 where lb: "loop_body E m e = Some m1"
    and rest: "replay E m1 es = Some m'"
    by (auto split: option.splits)
  from Cons.IH[OF rest] loop_body_group[OF lb] loop_body_handledEvents[OF lb]
  show ?case by auto
qed

lemma replay_append:
  "replay E m (xs @ ys) = Some m' \<longleftrightarrow>
     (\<exists>m1. replay E m xs = Some m1 \<and> replay E m1 ys = Some m')"
  by (induction xs arbitrary: m) (auto split: option.splits)

lemma unskipped_Cons:
  assumes "unskipped m (e # es)" "loop_body E m e = Some m1"
  shows "process_entry E m e = Some m1" "unskipped m1 es"
proof -
  from assms show "process_entry E m e = Some m1"
    by (auto simp: unskipped_def loop_body_def Let_def)
  from assms loop_body_group[OF assms(2)] loop_body_handledEvents[OF assms(2)]
  show "unskipped m1 es"
    by (auto simp: unskipped_def split: if_splits)
qed

lemma unskipped_replay:
  "unskipped m (xs @ ys) \<Longrightarrow> replay E m xs = Some m1 \<Longrightarrow> unskipped m1 ys"
proof (induction xs arbitrary: m)
  case Nil
  then show ?case by simp
next
  case (Cons x xs)
  from Cons.prems(2) obtain m0 where lb: "loop_body E m x = Some m0"
    and rest: "replay E m0 xs = Some m1"
    by (auto split: option.splits)
  from Cons.prems(1) have "unskipped m (x # (xs @ ys))" by simp
  from unskipped_Cons(2)[OF this lb] Cons.IH rest show ?case by blast
qed

lemma unskipped_reset:
  "GroupType (group m) = GroupTypeAccount \<or> distinct (map GetHash entries) \<Longrightarrow>
     unskipped (reset m) (rev entries)"
  by (auto simp: unskipped_def reset_def distinct_rev rev_map[symmetric])

lemma process_entry_logger:
  "process_entry E m e = Some m' \<Longrightarrow> set (logger m) \<subseteq> set (logger m')"
  by (erule process_entry_cases) (auto simp: log_error_def mark_handled_def split: option.splits)

lemma replay_logger:
  "replay E m es = Some m' \<Longrightarrow> set (logger m) \<subseteq> set (logger m')"
proof (induction es arbitrary: m)
  case Nil
  then show ?case by simp
next
  case (Cons e es)
  from Cons.prems obtain m1 where lb: "loop_body E m e = Some m1"
    and rest: "replay E m1 es = Some m'"
    by (auto split: option.splits)
  from lb have "set (logger m) \<subseteq> set (logger m1)"
    by (auto simp: loop_body_def Let_def split: if_splits dest: process_entry_logger)
  with Cons.IH[OF rest] show ?case by blast
qed

lemma UpdateIndex_split:
  assumes "UpdateIndex E m entries = Some (r, m')"
  obtains m1 where "replay E (reset m) (rev entries) = Some m1"
    "run_postIndexActions postIndexActions m1 = (r, m')"
  using assms by (auto simp: UpdateIndex_def split: option.splits)

lemma run_postIndexActions_fields:
  assumes "run_postIndexActions postIndexActions m = (r, m')"
  shows "logger m' = logger m" "handledEvents m' = handledEvents m" "contacts m' = contacts m"
    "heap m' = heap m" "groups m' = groups m" "serviceTokens m' = serviceTokens m"
    "members m' = members m" "devices m' = devices m" "admins m' = admins m"
    "sentSecrets m' = sentSecrets m" "contactsFromGroupPK m' = contactsFromGroupPK m"
    "contactRequestEnabled m' = contactRequestEnabled m"
    "contactRequestSeed m' = contactRequestSeed m"
    "verifiedCredentials m' = verifiedCredentials m" "group m' = group m"
    "ownMemberDevice m' = ownMemberDevice m"
  using run_postIndexActions_frame[OF assms] by auto

lemma registry_inv_device_added:
  assumes inv: "registry_inv m" and fresh: "map_of (devices m) dpk = None"
    and md: "md = \<lparr>Member = Ed25519PublicKey mpk, Device = Ed25519PublicKey dpk\<rparr>"
  shows "registry_inv
       (m\<lparr>devices := AList.update dpk md (devices m),
          members := AList.update mpk
             ((case map_of (members m) mpk of None \<Rightarrow> [] | Some mds \<Rightarrow> mds) @ [md]) (members m)\<rparr>)"
    (is "registry_inv ?m'")
proof -
  let ?old = "case map_of (members m) mpk of None \<Rightarrow> [] | Some mds \<Rightarrow> mds"
  have dev: "map_of (devices ?m') = (map_of (devices m))(dpk \<mapsto> md)"
    by (simp add: update_conv')
  have mem: "map_of (members ?m') = (map_of (members m))(mpk \<mapsto> ?old @ [md])"
    by (simp add: update_conv')
  have old: "\<forall>x \<in> set ?old. Raw (Member x) = mpk \<and> map_of (devices m) (Raw (Device x)) = Some x"
    using inv by (auto simp: registry_inv_def split: option.splits)
  have old_dist: "distinct (map Device ?old)"
    using inv by (auto simp: registry_inv_def split: option.splits)
  have notin: "Device md \<notin> Device ` set ?old"
  proof
    assume "Device md \<in> Device ` set ?old"
    then obtain x where x: "x \<in> set ?old" "Device x = Device md" by (metis imageE)
    with old have "map_of (devices m) (Raw (Device md)) = Some x" by metis
    with fresh md show False by simp
  qed
  have d1: "distinct (map fst (members ?m'))" "distinct (map fst (devices ?m'))"
    using inv by (simp_all add: registry_inv_def distinct_update)
  have c3: "mds \<noteq> [] \<and> distinct (map Device mds) \<and>
        (\<forall>x \<in> set mds. Raw (Member x) = k \<and> map_of (devices ?m') (Raw (Device x)) = Some x)"
    if "map_of (members ?m') k = Some mds" for k mds
  proof (cases "k = mpk")
    case True
    with that mem have mds: "mds = ?old @ [md]" by simp
    have "\<forall>x \<in> set ?old. Raw (Device x) \<noteq> dpk" using old fresh by auto
    with old old_dist notin md show ?thesis
      unfolding mds dev True by auto
  next
    case False
    with that mem have o: "map_of (members m) k = Some mds" by simp
    with inv have a: "mds \<noteq> []" "distinct (map Device mds)"
      and b: "\<forall>x \<in> set mds. Raw (Member x) = k \<and> map_of (devices m) (Raw (Device x)) = Some x"
      unfolding registry_inv_def by blast+
    from b fresh have "\<forall>x \<in> set mds. Raw (Device x) \<noteq> dpk" by auto
    with a b show ?thesis unfolding dev by auto
  qed
  have c4: "Raw (Device x) = k \<and>
        (\<exists>mds. map_of (members ?m') (Raw (Member x)) = Some mds \<and> x \<in> set mds)"
    if "map_of (devices ?m') k = Some x" for k x
  proof (cases "k = dpk")
    case True
    with that dev have "x = md" by simp
    with True md mem show ?thesis by simp
  next
    case False
    with that dev have o: "map_of (devices m) k = Some x" by simp
    with inv have "Raw (Device x) = k"
      and "\<exists>mds. map_of (members m) (Raw (Member x)) = Some mds \<and> x \<in> set mds"
      unfolding registry_inv_def by blast+
    then show ?thesis unfolding mem by (cases "Raw (Member x) = mpk") auto
  qed
  from d1 c3 c4 show ?thesis unfolding registry_inv_def by blast
qed

lemma registry_inv_frame:
  assumes "registry_inv m" "members m' = members m" "devices m' = devices m"
  shows "registry_inv m'"
  using assms(1) unfolding registry_inv_def assms(2,3) .

lemma registry_inv_memberD:
  assumes "registry_inv m" "map_of (members m) mpk = Some mds"
  shows "mds \<noteq> []" "distinct (map Device mds)"
    "md \<in> set mds \<Longrightarrow> Raw (Member md) = mpk"
    "md \<in> set mds \<Longrightarrow> map_of (devices m) (Raw (Device md)) = Some md"
proof -
  from assms(1) have "\<forall>mpk mds. map_of (members m) mpk = Some mds \<longrightarrow>
        mds \<noteq> [] \<and> distinct (map Device mds) \<and>
        (\<forall>md \<in> set mds. Raw (Member md) = mpk \<and>
                        map_of (devices m) (Raw (Device md)) = Some md)"
    unfolding registry_inv_def by (elim conjE)
  from this[rule_format, OF assms(2)]
  show "mds \<noteq> []" "distinct (map Device mds)"
    "md \<in> set mds \<Longrightarrow> Raw (Member md) = mpk"
    "md \<in> set mds \<Longrightarrow> map_of (devices m) (Raw (Device md)) = Some md"
    by simp_all
qed

lemma registry_inv_deviceD:
  assumes "registry_inv m" "map_of (devices m) dpk = Some md"
  shows "Raw (Device md) = dpk"
    "\<exists>mds. map_of (members m) (Raw (Member md)) = Some mds \<and> md \<in> set mds"
proof -
  from assms(1) have "\<forall>dpk md. map_of (devices m) dpk = Some md \<longrightarrow>
        Raw (Device md) = dpk \<and>
        (\<exists>mds. map_of (members m) (Raw (Member md)) = Some mds \<and> md \<in> set mds)"
    unfolding registry_inv_def by (elim conjE)
  from this[rule_format, OF assms(2)]
  show "Raw (Device md) = dpk"
    "\<exists>mds. map_of (members m) (Raw (Member md)) = Some mds \<and> md \<in> set mds"
    by simp_all
qed

lemma effect_registry_inv: "effect E ty ev m m' \<Longrightarrow> registry_inv m \<Longrightarrow> registry_inv m'"
proof (induction rule: effect.induct)
  case (eff_device m dpk mpk md)
  then show ?case using registry_inv_device_added by blast
qed (erule registry_inv_frame; simp)+

lemma process_entry_registry_inv:
  assumes "process_entry E m e = Some m'" "registry_inv m"
  shows "registry_inv m'"
  using assms(1)
proof (cases rule: process_entry_cases)
  case (undecodable err)
  with assms(2) show ?thesis by (auto elim!: registry_inv_frame simp: log_error_def)
next
  case (unhandled ty ev)
  with assms(2) show ?thesis
    by (auto elim!: registry_inv_frame simp: log_error_def mark_handled_def)
next
  case (handled ty ev h r m1)
  from effect_registry_inv[OF handled(4) assms(2)] handled(5) show ?thesis
    by (auto elim!: registry_inv_frame simp: log_error_def mark_handled_def split: option.splits)
qed

lemma replay_registry_inv:
  "replay E m es = Some m' \<Longrightarrow> registry_inv m \<Longrightarrow> registry_inv m'"
  by (induction es arbitrary: m)
     (auto simp: loop_body_def Let_def split: option.splits if_splits
        dest: process_entry_registry_inv)

lemma UpdateIndex_registry_inv:
  assumes "UpdateIndex E m entries = Some (r, m')" "registry_inv m"
  shows "registry_inv m'"
proof -
  from assms(1) obtain m1 where rp: "replay E (reset m) (rev entries) = Some m1"
    and post: "run_postIndexActions postIndexActions m1 = (r, m')"
    by (rule UpdateIndex_split)
  have "registry_inv (reset m)"
    using assms(2) by (rule registry_inv_frame) (simp_all add: reset_def)
  from replay_registry_inv[OF rp this] show ?thesis
    by (rule registry_inv_frame)
       (rule run_postIndexActions_fields(7)[OF post], rule run_postIndexActions_fields(8)[OF post])
qed

lemma registry_inv_one_list:
  assumes "registry_inv m" "map_of (members m) mpk1 = Some mds1" "md1 \<in> set mds1"
    "map_of (members m) mpk2 = Some mds2" "md2 \<in> set mds2"
    "Raw (Device md1) = Raw (Device md2)"
  shows "mpk1 = mpk2 \<and> md1 = md2"
proof -
  note a = registry_inv_memberD(3,4)[OF assms(1,2,3)]
  note b = registry_inv_memberD(3,4)[OF assms(1,4,5)]
  from a(2) b(2) have "Some md1 = Some md2" unfolding assms(6) by (rule trans[OF sym])
  then have "md1 = md2" by (simp only: option.inject)
  with a(1) b(1) show ?thesis by (simp only:)
qed

lemma create_contact:
  assumes "induced_contact ev = Some (k, st)" "map_of (contacts m) k = None"
    "eventHandlers (type_of_event ev) = Some hs"
  shows "\<exists>h c x. hs = [h] \<and> state c = st \<and> PK (contact c) = k \<and>
           h E ev m = Some (registerContactFromGroupPK E (length (heap m))
             (m\<lparr>contactRequestMetadata := x, heap := heap m @ [c],
                contacts := AList.update k (length (heap m)) (contacts m)\<rparr>))"
  using assms(1)
proof (cases rule: induced_contact.elims)
  case (1 c uu)
  let ?x = "if (case map_of (contactRequestMetadata m) (PK c) of
                               None \<Rightarrow> True | Some data \<Rightarrow> len data = 0)
                then AList.update (PK c) uu (contactRequestMetadata m)
                else contactRequestMetadata m"
  let ?c = "\<lparr>state = ContactStateToRequest,
            contact = \<lparr>PK = PK c, PublicRendezvousSeed = PublicRendezvousSeed c,
                       Metadata = Metadata c\<rparr>\<rparr>"
  from 1 assms(2,3) have "hs = [handleContactRequestOutgoingEnqueued] \<and> state ?c = st \<and> PK (contact ?c) = k \<and>
      handleContactRequestOutgoingEnqueued E ev m = Some (registerContactFromGroupPK E (length (heap m))
             (m\<lparr>contactRequestMetadata := ?x, heap := heap m @ [?c],
                contacts := AList.update k (length (heap m)) (contacts m)\<rparr>))"
    by (auto simp: handleContactRequestOutgoingEnqueued_def new_AccountContact_def)
  then show ?thesis by blast
next
  case (2 k')
  let ?c = "\<lparr>state = ContactStateAdded,
            contact = \<lparr>PK = k, PublicRendezvousSeed = None, Metadata = None\<rparr>\<rparr>"
  from 2 assms(2,3) have "hs = [handleContactRequestOutgoingSent] \<and> state ?c = st \<and> PK (contact ?c) = k \<and>
      handleContactRequestOutgoingSent E ev m = Some (registerContactFromGroupPK E (length (heap m))
             (m\<lparr>contactRequestMetadata := contactRequestMetadata m, heap := heap m @ [?c],
                contacts := AList.update k (length (heap m)) (contacts m)\<rparr>))"
    by (auto simp: handleContactRequestOutgoingSent_def new_AccountContact_def)
  then show ?thesis by blast
next
  case (3 k' sd md)
  let ?c = "\<lparr>state = ContactStateReceived,
            contact = \<lparr>PK = k, PublicRendezvousSeed = sd, Metadata = md\<rparr>\<rparr>"
  from 3 assms(2,3) have "hs = [handleContactRequestIncomingReceived] \<and> state ?c = st \<and> PK (contact ?c) = k \<and>
      handleContactRequestIncomingReceived E ev m = Some (registerContactFromGroupPK E (length (heap m))
             (m\<lparr>contactRequestMetadata := contactRequestMetadata m, heap := heap m @ [?c],
                contacts := AList.update k (length (heap m)) (contacts m)\<rparr>))"
    by (auto simp: handleContactRequestIncomingReceived_def new_AccountContact_def)
  then show ?thesis by blast
next
  case (4 k')
  let ?c = "\<lparr>state = ContactStateDiscarded,
            contact = \<lparr>PK = k, PublicRendezvousSeed = None, Metadata = None\<rparr>\<rparr>"
  from 4 assms(2,3) have "hs = [handleContactRequestIncomingDiscarded] \<and> state ?c = st \<and> PK (contact ?c) = k \<and>
      handleContactRequestIncomingDiscarded E ev m = Some (registerContactFromGroupPK E (length (heap m))
             (m\<lparr>contactRequestMetadata := contactRequestMetadata m, heap := heap m @ [?c],
                contacts := AList.update k (length (heap m)) (contacts m)\<rparr>))"
    by (auto simp: handleContactRequestIncomingDiscarded_def new_AccountContact_def)
  then show ?thesis by blast
next
  case (5 k')
  let ?c = "\<lparr>state = ContactStateAdded,
            contact = \<lparr>PK = k, PublicRendezvousSeed = None, Metadata = None\<rparr>\<rparr>"
  from 5 assms(2,3) have "hs = [handleContactRequestIncomingAccepted] \<and> state ?c = st \<and> PK (contact ?c) = k \<and>
      handleContactRequestIncomingAccepted E ev m = Some (registerContactFromGroupPK E (length (heap m))
             (m\<lparr>contactRequestMetadata := contactRequestMetadata m, heap := heap m @ [?c],
                contacts := AList.update k (length (heap m)) (contacts m)\<rparr>))"
    by (auto simp: handleContactRequestIncomingAccepted_def new_AccountContact_def)
  then show ?thesis by blast
next
  case (6 k')
  let ?c = "\<lparr>state = ContactStateBlocked,
            contact = \<lparr>PK = k, PublicRendezvousSeed = None, Metadata = None\<rparr>\<rparr>"
  from 6 assms(2,3) have "hs = [handleContactBlocked] \<and> state ?c = st \<and> PK (contact ?c) = k \<and>
      handleContactBlocked E ev m = Some (registerContactFromGroupPK E (length (heap m))
             (m\<lparr>contactRequestMetadata := contactRequestMetadata m, heap := heap m @ [?c],
                contacts := AList.update k (length (heap m)) (contacts m)\<rparr>))"
    by (auto simp: handleContactBlocked_def new_AccountContact_def)
  then show ?thesis by blast
next
  case (7 k')
  let ?c = "\<lparr>state = ContactStateRemoved,
            contact = \<lparr>PK = k, PublicRendezvousSeed = None, Metadata = None\<rparr>\<rparr>"
  from 7 assms(2,3) have "hs = [handleContactUnblocked] \<and> state ?c = st \<and> PK (contact ?c) = k \<and>
      handleContactUnblocked E ev m = Some (registerContactFromGroupPK E (length (heap m))
             (m\<lparr>contactRequestMetadata := contactRequestMetadata m, heap := heap m @ [?c],
                contacts := AList.update k (length (heap m)) (contacts m)\<rparr>))"
    by (auto simp: handleContactUnblocked_def new_AccountContact_def)
  then show ?thesis by blast
qed simp_all


lemma listContacts_keys: "map fst (fst (listContacts m)) = map fst (contacts m)"
  by (simp add: listContacts_def)

lemma newest_contact_state_snoc:
  "newest_contact_state E g (es @ [e]) k =
     (case contact_event E g e of
        None \<Rightarrow> newest_contact_state E g es k
      | Some (k', st) \<Rightarrow> if k' = k then Some st else newest_contact_state E g es k)"
  by (induction es) (auto split: option.splits)

lemma eventHandlers_type_of_event: "eventHandlers (type_of_event ev) \<noteq> None"
  by (cases ev) simp_all

lemma effect_contact_kept:
  assumes "effect E ty ev m m'" "map_of (contacts m) k = Some p" "p < length (heap m)"
  shows "map_of (contacts m') k = Some p \<and> p < length (heap m') \<and>
         state (heap m' ! p) = state (heap m ! p)"
  using assms
proof (induction rule: effect.induct)
  case (eff_fill k' st m p' c)
  then show ?case by (cases "p = p'") auto
next
  case (eff_new m k' c y x)
  then have "k' \<noteq> k" by auto
  with eff_new show ?case by (simp add: update_conv' nth_append)
qed auto

lemma effect_contact_created:
  assumes "effect E ty ev m m'" "map_of (contacts m) k = None" "map_of (contacts m') k \<noteq> None"
  shows "ty = type_of_event ev \<and> (\<exists>st. induced_contact ev = Some (k, st))"
  using assms
proof (induction rule: effect.induct)
  case (eff_new m k' c y x)
  then show ?case by (cases "k' = k") (auto simp: update_conv')
qed auto

lemma process_entry_contact_kept:
  assumes "process_entry E m e = Some m'" "map_of (contacts m) k = Some p" "p < length (heap m)"
  shows "map_of (contacts m') k = Some p \<and> p < length (heap m') \<and>
         state (heap m' ! p) = state (heap m ! p)"
  using assms(1)
proof (cases rule: process_entry_cases)
  case (handled ty ev h r m1)
  from effect_contact_kept[OF handled(4) assms(2,3)] handled(5) show ?thesis
    by (auto simp: mark_handled_def log_error_def split: option.splits)
qed (use assms in \<open>auto simp: mark_handled_def log_error_def\<close>)

lemma process_entry_contact_new:
  assumes "process_entry E m e = Some m'" "map_of (contacts m) k = None"
  shows "case contact_event E (group m) e of
           None \<Rightarrow> map_of (contacts m') k = None
         | Some (k', st) \<Rightarrow>
             if k' = k
             then \<exists>p. map_of (contacts m') k = Some p \<and> p < length (heap m') \<and>
                      state (heap m' ! p) = st
             else map_of (contacts m') k = None"
  using assms(1)
proof (cases rule: process_entry_cases)
  case (undecodable err)
  with assms(2) show ?thesis by (simp add: contact_event_def log_error_def)
next
  case (unhandled ty ev)
  then have "ty \<noteq> type_of_event ev" using eventHandlers_type_of_event by metis
  with unhandled assms(2) show ?thesis
    by (simp add: contact_event_def log_error_def mark_handled_def)
next
  case (handled ty ev h r m1)
  have c': "contacts m' = contacts m1" "heap m' = heap m1"
    using handled(5) by (auto simp: mark_handled_def log_error_def split: option.splits)
  show ?thesis
  proof (cases "ty = type_of_event ev \<and> (\<exists>st. induced_contact ev = Some (k, st))")
    case True
    then obtain st where ty: "ty = type_of_event ev" and ic: "induced_contact ev = Some (k, st)"
      by blast
    from create_contact[OF ic assms(2) handled(2)[unfolded ty], of E] handled(3)
    obtain c x where c: "state c = st"
      and reg: "registerContactFromGroupPK E (length (heap m))
             (m\<lparr>contactRequestMetadata := x, heap := heap m @ [c],
                contacts := AList.update k (length (heap m)) (contacts m)\<rparr>) = (r, m1)"
      by auto
    from registerContactFromGroupPK_frame[OF reg] c
    have "map_of (contacts m1) k = Some (length (heap m)) \<and> length (heap m) < length (heap m1) \<and>
          state (heap m1 ! length (heap m)) = st"
      by (auto simp: update_conv')
    with handled(1) ty ic c' show ?thesis by (simp add: contact_event_def)
  next
    case False
    with effect_contact_created[OF handled(4) assms(2)] have "map_of (contacts m1) k = None"
      by blast
    with handled(1) False c' show ?thesis
      by (auto simp: contact_event_def split: option.splits)
  qed
qed

lemma replay_contact_state:
  assumes "replay E m es = Some m'" "unskipped m es"
    "\<And>p. map_of (contacts m) k = Some p \<Longrightarrow> p < length (heap m)"
  shows "case map_of (contacts m) k of
           Some p \<Rightarrow> map_of (contacts m') k = Some p \<and> p < length (heap m') \<and>
                     state (heap m' ! p) = state (heap m ! p)
         | None \<Rightarrow>
             (case newest_contact_state E (group m) (rev es) k of
                None \<Rightarrow> map_of (contacts m') k = None
              | Some st \<Rightarrow> \<exists>p. map_of (contacts m') k = Some p \<and> p < length (heap m') \<and>
                                state (heap m' ! p) = st)"
  using assms
proof (induction es arbitrary: m)
  case Nil
  then show ?case by (auto split: option.splits)
next
  case (Cons e es)
  from Cons.prems(1) obtain m1 where lb: "loop_body E m e = Some m1"
    and rest: "replay E m1 es = Some m'"
    by (auto split: option.splits)
  note pe = unskipped_Cons(1)[OF Cons.prems(2) lb]
  note us = unskipped_Cons(2)[OF Cons.prems(2) lb]
  have g: "group m1 = group m" using process_entry_group[OF pe] .
  show ?case
  proof (cases "map_of (contacts m) k")
    case (Some p)
    with Cons.prems(3) have p: "p < length (heap m)" by simp
    from process_entry_contact_kept[OF pe Some p]
    have k1: "map_of (contacts m1) k = Some p" "p < length (heap m1)"
      "state (heap m1 ! p) = state (heap m ! p)" by auto
    from Cons.IH[OF rest us] k1 Some show ?thesis by simp
  next
    case None
    note new = process_entry_contact_new[OF pe None]
    show ?thesis
    proof (cases "map_of (contacts m1) k")
      case n1: None
      with new have ce: "\<forall>st. contact_event E (group m) e \<noteq> Some (k, st)"
        by (auto split: option.splits if_splits)
      then have "newest_contact_state E (group m) (rev (e # es)) k =
                 newest_contact_state E (group m) (rev es) k"
        by (auto simp: newest_contact_state_snoc split: option.splits)
      with Cons.IH[OF rest us] n1 None g show ?thesis by simp
    next
      case (Some p)
      with new obtain st where ce: "contact_event E (group m) e = Some (k, st)"
        and p: "p < length (heap m1)" "state (heap m1 ! p) = st"
        by (auto split: option.splits if_splits)
      then have "newest_contact_state E (group m) (rev (e # es)) k = Some st"
        by (simp add: newest_contact_state_snoc)
      with Cons.IH[OF rest us] Some None p show ?thesis by auto
    qed
  qed
qed

lemma newest_group_state_snoc:
  "newest_group_state E g (es @ [e]) k =
     (case group_event E g e of
        None \<Rightarrow> newest_group_state E g es k
      | Some (k', st) \<Rightarrow> if k' = k then Some st else newest_group_state E g es k)"
  by (induction es) (auto split: option.splits)

lemma effect_group_kept:
  assumes "effect E ty ev m m'" "map_of (groups m) k = Some g"
  shows "map_of (groups m') k = Some g"
  using assms
proof (induction rule: effect.induct)
  case (eff_group m k' g')
  then have "k' \<noteq> k" by auto
  with eff_group show ?case by (simp add: update_conv')
qed auto

lemma effect_group_created:
  assumes "effect E ty ev m m'" "map_of (groups m) k = None" "map_of (groups m') k = Some g"
  shows "ty = type_of_event ev \<and> induced_group ev = Some (k, ag_state g)"
  using assms
proof (induction rule: effect.induct)
  case (eff_group m k' g')
  then show ?case by (cases "k' = k") (auto simp: update_conv')
qed auto

lemma create_group:
  assumes "induced_group ev = Some (k, st)" "map_of (groups m) k = None"
    "eventHandlers (type_of_event ev) = Some [h]" "h E ev m = Some (r, m')"
  shows "\<exists>g. map_of (groups m') k = Some g \<and> ag_state g = st"
  using assms(1)
proof (cases rule: induced_group.elims)
  case (1 g)
  with assms show ?thesis by (auto simp: handleGroupJoined_def update_conv')
next
  case (2 k')
  with assms show ?thesis by (auto simp: handleGroupLeft_def update_conv')
qed simp_all

lemma process_entry_group_kept:
  assumes "process_entry E m e = Some m'" "map_of (groups m) k = Some g"
  shows "map_of (groups m') k = Some g"
  using assms(1)
proof (cases rule: process_entry_cases)
  case (handled ty ev h r m1)
  from effect_group_kept[OF handled(4) assms(2)] handled(5) show ?thesis
    by (auto simp: mark_handled_def log_error_def split: option.splits)
qed (use assms in \<open>auto simp: mark_handled_def log_error_def\<close>)

lemma process_entry_group_new:
  assumes "process_entry E m e = Some m'" "map_of (groups m) k = None"
  shows "case group_event E (group m) e of
           None \<Rightarrow> map_of (groups m') k = None
         | Some (k', st) \<Rightarrow>
             if k' = k then \<exists>g. map_of (groups m') k = Some g \<and> ag_state g = st
             else map_of (groups m') k = None"
  using assms(1)
proof (cases rule: process_entry_cases)
  case (undecodable err)
  with assms(2) show ?thesis by (simp add: group_event_def log_error_def)
next
  case (unhandled ty ev)
  then have "ty \<noteq> type_of_event ev" using eventHandlers_type_of_event by metis
  with unhandled assms(2) show ?thesis
    by (simp add: group_event_def log_error_def mark_handled_def)
next
  case (handled ty ev h r m1)
  have c': "groups m' = groups m1"
    using handled(5) by (auto simp: mark_handled_def log_error_def split: option.splits)
  show ?thesis
  proof (cases "ty = type_of_event ev \<and> (\<exists>st. induced_group ev = Some (k, st))")
    case True
    then obtain st where ty: "ty = type_of_event ev" and ic: "induced_group ev = Some (k, st)"
      by blast
    from create_group[OF ic assms(2) handled(2)[unfolded ty] handled(3)]
    have "\<exists>g. map_of (groups m1) k = Some g \<and> ag_state g = st" .
    with handled(1) ty ic c' show ?thesis by (simp add: group_event_def)
  next
    case False
    with effect_group_created[OF handled(4) assms(2)] have "map_of (groups m1) k = None"
      by (cases "map_of (groups m1) k") auto
    with handled(1) False c' show ?thesis
      by (auto simp: group_event_def split: option.splits)
  qed
qed

lemma replay_group_state:
  assumes "replay E m es = Some m'" "unskipped m es"
  shows "case map_of (groups m) k of
           Some g \<Rightarrow> map_of (groups m') k = Some g
         | None \<Rightarrow>
             (case newest_group_state E (group m) (rev es) k of
                None \<Rightarrow> map_of (groups m') k = None
              | Some st \<Rightarrow> \<exists>g. map_of (groups m') k = Some g \<and> ag_state g = st)"
  using assms
proof (induction es arbitrary: m)
  case Nil
  then show ?case by (auto split: option.splits)
next
  case (Cons e es)
  from Cons.prems(1) obtain m1 where lb: "loop_body E m e = Some m1"
    and rest: "replay E m1 es = Some m'"
    by (auto split: option.splits)
  note pe = unskipped_Cons(1)[OF Cons.prems(2) lb]
  note us = unskipped_Cons(2)[OF Cons.prems(2) lb]
  have g: "group m1 = group m" using process_entry_group[OF pe] .
  show ?case
  proof (cases "map_of (groups m) k")
    case (Some x)
    from process_entry_group_kept[OF pe Some] Cons.IH[OF rest us] Some show ?thesis by simp
  next
    case None
    note new = process_entry_group_new[OF pe None]
    show ?thesis
    proof (cases "map_of (groups m1) k")
      case n1: None
      with new have ce: "\<forall>st. group_event E (group m) e \<noteq> Some (k, st)"
        by (auto split: option.splits if_splits)
      then have "newest_group_state E (group m) (rev (e # es)) k =
                 newest_group_state E (group m) (rev es) k"
        by (auto simp: newest_group_state_snoc split: option.splits)
      with Cons.IH[OF rest us] n1 None g show ?thesis by simp
    next
      case (Some x)
      with new obtain st where ce: "group_event E (group m) e = Some (k, st)"
        and p: "ag_state x = st"
        by (auto split: option.splits if_splits)
      then have "newest_group_state E (group m) (rev (e # es)) k = Some st"
        by (simp add: newest_group_state_snoc)
      with Cons.IH[OF rest us] Some None p show ?thesis by auto
    qed
  qed
qed

lemma effect_tombstone_kept:
  assumes "effect E ty ev m m'" "map_of (serviceTokens m) k = Some None"
  shows "map_of (serviceTokens m') k = Some None"
  using assms
proof (induction rule: effect.induct)
  case (eff_token_added m k' t)
  then have "k' \<noteq> k" by auto
  with eff_token_added show ?case by (simp add: update_conv')
next
  case (eff_token_removed m k')
  then show ?case by (simp add: update_conv')
qed auto

lemma effect_tokens_keyed:
  assumes "effect E ty ev m m'" "tokens_keyed E m"
  shows "tokens_keyed E m'"
  using assms
proof (induction rule: effect.induct)
  case (eff_token_added m k' t)
  then show ?case by (auto simp: tokens_keyed_def update_conv')
next
  case (eff_token_removed m k')
  then show ?case by (auto simp: tokens_keyed_def update_conv')
qed (auto simp: tokens_keyed_def)

lemma process_entry_tombstone_kept:
  assumes "process_entry E m e = Some m'" "map_of (serviceTokens m) k = Some None"
  shows "map_of (serviceTokens m') k = Some None"
  using assms(1)
proof (cases rule: process_entry_cases)
  case (handled ty ev h r m1)
  from effect_tombstone_kept[OF handled(4) assms(2)] handled(5) show ?thesis
    by (auto simp: mark_handled_def log_error_def split: option.splits)
qed (use assms in \<open>auto simp: mark_handled_def log_error_def\<close>)

lemma process_entry_tokens_keyed:
  assumes "process_entry E m e = Some m'" "tokens_keyed E m"
  shows "tokens_keyed E m'"
  using assms(1)
proof (cases rule: process_entry_cases)
  case (handled ty ev h r m1)
  from effect_tokens_keyed[OF handled(4) assms(2)] handled(5) show ?thesis
    by (auto simp: mark_handled_def log_error_def tokens_keyed_def split: option.splits)
qed (use assms in \<open>auto simp: mark_handled_def log_error_def tokens_keyed_def\<close>)

lemma process_entry_removes_token:
  assumes "process_entry E m e = Some m'" "removes_token E (group m) e k"
  shows "map_of (serviceTokens m') k = Some None"
  using assms
  by (auto simp: process_entry_def removes_token_def handleAccountServiceTokenRemoved_def
      mark_handled_def update_conv')

lemma replay_tombstone_kept:
  "replay E m es = Some m' \<Longrightarrow> map_of (serviceTokens m) k = Some None \<Longrightarrow>
     map_of (serviceTokens m') k = Some None"
  by (induction es arbitrary: m)
     (auto simp: loop_body_def Let_def split: option.splits if_splits
        dest: process_entry_tombstone_kept)

lemma replay_tokens_keyed:
  "replay E m es = Some m' \<Longrightarrow> tokens_keyed E m \<Longrightarrow> tokens_keyed E m'"
  by (induction es arbitrary: m)
     (auto simp: loop_body_def Let_def split: option.splits if_splits
        dest: process_entry_tokens_keyed)

lemma listServiceTokens_iff:
  "t \<in> set (listServiceTokens m) \<longleftrightarrow> (\<exists>k. (k, Some t) \<in> set (serviceTokens m))"
  by (auto simp: listServiceTokens_def split: option.splits)

lemma effect_serviceTokens_distinct:
  "effect E ty ev m m' \<Longrightarrow> distinct (map fst (serviceTokens m)) \<Longrightarrow>
     distinct (map fst (serviceTokens m'))"
  by (induction rule: effect.induct) (auto simp: distinct_update)

lemma process_entry_serviceTokens_distinct:
  assumes "process_entry E m e = Some m'" "distinct (map fst (serviceTokens m))"
  shows "distinct (map fst (serviceTokens m'))"
  using assms(1)
proof (cases rule: process_entry_cases)
  case (handled ty ev h r m1)
  from effect_serviceTokens_distinct[OF handled(4) assms(2)] handled(5) show ?thesis
    by (auto simp: mark_handled_def log_error_def split: option.splits)
qed (use assms in \<open>auto simp: mark_handled_def log_error_def\<close>)

lemma replay_serviceTokens_distinct:
  "replay E m es = Some m' \<Longrightarrow> distinct (map fst (serviceTokens m)) \<Longrightarrow>
     distinct (map fst (serviceTokens m'))"
  by (induction es arbitrary: m)
     (auto simp: loop_body_def Let_def split: option.splits if_splits
        dest: process_entry_serviceTokens_distinct)

lemma process_entry_queue:
  assumes "process_entry E m e = Some m'"
  shows "eventsContactAddAliasKey m' = eventsContactAddAliasKey m @ alias_of E (group m) e"
  using assms
proof (cases rule: process_entry_cases)
  case (undecodable err)
  then show ?thesis by (simp add: alias_of_def log_error_def)
next
  case (unhandled ty ev)
  then have "ty \<noteq> EventTypeContactAliasKeyAdded" by auto
  with unhandled show ?thesis by (simp add: alias_of_def log_error_def mark_handled_def)
next
  case (handled ty ev h r m1)
  have q: "eventsContactAddAliasKey m' = eventsContactAddAliasKey m1"
    using handled(5) by (auto simp: mark_handled_def log_error_def split: option.splits)
  show ?thesis
  proof (cases "ty = EventTypeContactAliasKeyAdded")
    case True
    with handled(2) have "h = handleContactAliasKeyAdded" by simp
    with handled(3) have "eventsContactAddAliasKey m1 = eventsContactAddAliasKey m @
        (case ev of ContactAliasKeyAdded DevicePK AliasPK \<Rightarrow> [(DevicePK, AliasPK)] | _ \<Rightarrow> [])"
      by (cases ev) (auto simp: handleContactAliasKeyAdded_def)
    with q handled(1) True show ?thesis by (simp add: alias_of_def)
  next
    case False
    from handled(4) False have "eventsContactAddAliasKey m1 = eventsContactAddAliasKey m"
      by (induction rule: effect.induct) auto
    with q handled(1) False show ?thesis by (simp add: alias_of_def)
  qed
qed

lemma replay_queue:
  assumes "replay E m es = Some m'" "unskipped m es"
  shows "eventsContactAddAliasKey m' =
           eventsContactAddAliasKey m @ concat (map (alias_of E (group m)) es)"
  using assms
proof (induction es arbitrary: m)
  case Nil
  then show ?case by simp
next
  case (Cons e es)
  from Cons.prems(1) obtain m1 where lb: "loop_body E m e = Some m1"
    and rest: "replay E m1 es = Some m'"
    by (auto split: option.splits)
  note pe = unskipped_Cons(1)[OF Cons.prems(2) lb]
  note us = unskipped_Cons(2)[OF Cons.prems(2) lb]
  from Cons.IH[OF rest us] process_entry_queue[OF pe] process_entry_group[OF pe]
  show ?case by simp
qed

lemma effect_alias_flags:
  "effect E ty ev m m' \<Longrightarrow> ownAliasKeySent m' = ownAliasKeySent m \<and> otherAliasKey m' = otherAliasKey m"
  by (induction rule: effect.induct) auto

lemma process_entry_alias_flags:
  assumes "process_entry E m e = Some m'"
  shows "ownAliasKeySent m' = ownAliasKeySent m \<and> otherAliasKey m' = otherAliasKey m"
  using assms
proof (cases rule: process_entry_cases)
  case (handled ty ev h r m1)
  from effect_alias_flags[OF handled(4)] handled(5) show ?thesis
    by (auto simp: mark_handled_def log_error_def split: option.splits)
qed (auto simp: mark_handled_def log_error_def)

lemma replay_alias_flags:
  "replay E m es = Some m' \<Longrightarrow>
     ownAliasKeySent m' = ownAliasKeySent m \<and> otherAliasKey m' = otherAliasKey m"
  by (induction es arbitrary: m)
     (auto simp: loop_body_def Let_def split: option.splits if_splits
        dest: process_entry_alias_flags)

lemma unsafeGetMemberByDevice_frame [simp]:
  "unsafeGetMemberByDevice (m\<lparr>ownAliasKeySent := b\<rparr>) = unsafeGetMemberByDevice m"
  "unsafeGetMemberByDevice (m\<lparr>otherAliasKey := c\<rparr>) = unsafeGetMemberByDevice m"
  "unsafeGetMemberByDevice (m\<lparr>eventsContactAddAliasKey := q\<rparr>) = unsafeGetMemberByDevice m"
  by (simp_all add: unsafeGetMemberByDevice_def fun_eq_iff)

lemma own_sender_frame [simp]:
  "own_sender (m\<lparr>ownAliasKeySent := b\<rparr>) a = own_sender m a"
  "own_sender (m\<lparr>otherAliasKey := c\<rparr>) a = own_sender m a"
  "own_sender (m\<lparr>eventsContactAddAliasKey := q\<rparr>) a = own_sender m a"
  by (simp_all add: own_sender_def unsafeGetMemberByDevice_def)

lemma last_foreign_alias_frame [simp]:
  "last_foreign_alias (m\<lparr>ownAliasKeySent := b\<rparr>) q = last_foreign_alias m q"
  "last_foreign_alias (m\<lparr>otherAliasKey := c\<rparr>) q = last_foreign_alias m q"
  "last_foreign_alias (m\<lparr>eventsContactAddAliasKey := q'\<rparr>) q = last_foreign_alias m q"
  by (simp_all add: last_foreign_alias_def)

lemma last_foreign_alias_Cons:
  "last_foreign_alias m (a # q) =
     (case last_foreign_alias m q of
        Some x \<Rightarrow> Some x
      | None \<Rightarrow> if own_sender m a then None else Some (snd a))"
  by (auto simp: last_foreign_alias_def split: list.splits)

lemma postHandlerSentAliases_loop_ok:
  assumes "postHandlerSentAliases_loop q m = (None, m')"
  shows "eventsContactAddAliasKey m' = [] \<and>
         (ownAliasKeySent m' \<longleftrightarrow> ownAliasKeySent m \<or> (\<exists>a \<in> set q. own_sender m a)) \<and>
         otherAliasKey m' = (case last_foreign_alias m q of
                               None \<Rightarrow> otherAliasKey m | Some k \<Rightarrow> Some k) \<and>
         (\<forall>a \<in> set q. \<exists>pk. unsafeGetMemberByDevice m (fst a) = Inr pk) \<and>
         (\<forall>a \<in> set q. \<not> own_sender m a \<longrightarrow> length (snd a) = KeySize)"
  using assms
proof (induction q m rule: postHandlerSentAliases_loop.induct)
  case (1 m)
  then show ?case by (auto simp: last_foreign_alias_def)
next
  case (2 DevicePK AliasPK evts m)
  from 2(3) obtain pk where pk: "unsafeGetMemberByDevice m DevicePK = Inr pk"
    by (cases "unsafeGetMemberByDevice m DevicePK") auto
  show ?case
  proof (cases "pk = Member (ownMemberDevice m)")
    case True
    with pk 2(3) have l: "postHandlerSentAliases_loop evts (m\<lparr>ownAliasKeySent := True\<rparr>) = (None, m')"
      by simp
    have own: "own_sender m (DevicePK, AliasPK)" using pk True by (simp add: own_sender_def)
    from 2(1)[OF pk True l] own pk show ?thesis
      by (auto simp: last_foreign_alias_Cons split: option.splits)
  next
    case False
    with pk 2(3) have len: "length AliasPK = KeySize"
      by (auto split: if_splits)
    with pk False 2(3)
    have l: "postHandlerSentAliases_loop evts (m\<lparr>otherAliasKey := Some AliasPK\<rparr>) = (None, m')"
      by simp
    have own: "\<not> own_sender m (DevicePK, AliasPK)" using pk False by (simp add: own_sender_def)
    have n: "length AliasPK \<noteq> KeySize \<Longrightarrow> False" using len by simp
    from 2(2)[OF pk False _ l] len own pk show ?thesis
      by (auto simp: last_foreign_alias_Cons split: option.splits)
  qed
qed

lemma filled_nothing:
  "event_metadata ev = None \<Longrightarrow> event_seed ev = None \<Longrightarrow> filled ev c = c"
  by (cases c) (auto simp: filled_def Let_def)

lemma contact_handler_existing:
  assumes "induced_contact ev = Some (k, st)" "map_of (contacts m) k = Some p"
    "eventHandlers (type_of_event ev) = Some hs"
  shows "\<exists>h. hs = [h] \<and>
           h E ev m = Some (None, m\<lparr>heap := (heap m)[p := filled ev (heap m ! p)]\<rparr>)"
  using assms(1)
proof (cases rule: induced_contact.elims)
  case (1 c uu)
  with assms(2,3) show ?thesis
    by (auto simp: handleContactRequestOutgoingEnqueued_def filled_def Let_def)
next
  case (2 k')
  with assms(2,3) show ?thesis
    by (auto simp: handleContactRequestOutgoingSent_def filled_nothing)
next
  case (3 k' sd md)
  with assms(2,3) show ?thesis
    by (auto simp: handleContactRequestIncomingReceived_def filled_def Let_def)
next
  case (4 k')
  with assms(2,3) show ?thesis
    by (auto simp: handleContactRequestIncomingDiscarded_def filled_nothing)
next
  case (5 k')
  with assms(2,3) show ?thesis
    by (auto simp: handleContactRequestIncomingAccepted_def filled_nothing)
next
  case (6 k')
  with assms(2,3) show ?thesis
    by (auto simp: handleContactBlocked_def filled_nothing)
next
  case (7 k')
  with assms(2,3) show ?thesis
    by (auto simp: handleContactUnblocked_def filled_nothing)
qed simp_all

lemma contact_handler_new:
  assumes "induced_contact ev = Some (k, st)" "map_of (contacts m) k = None"
    "eventHandlers (type_of_event ev) = Some hs"
  shows "\<exists>h x. hs = [h] \<and>
           h E ev m = Some (registerContactFromGroupPK E (length (heap m))
             (m\<lparr>contactRequestMetadata := x,
                heap := heap m @ [\<lparr>state = st,
                                    contact = \<lparr>PK = k, PublicRendezvousSeed = event_seed ev,
                                               Metadata = event_metadata ev\<rparr>\<rparr>],
                contacts := AList.update k (length (heap m)) (contacts m)\<rparr>))"
  using assms(1)
proof (cases rule: induced_contact.elims)
  case (1 c uu)
  let ?x = "if (case map_of (contactRequestMetadata m) (PK c) of
                               None \<Rightarrow> True | Some data \<Rightarrow> len data = 0)
                then AList.update (PK c) uu (contactRequestMetadata m)
                else contactRequestMetadata m"
  from 1 assms(2,3) have "hs = [handleContactRequestOutgoingEnqueued] \<and>
      handleContactRequestOutgoingEnqueued E ev m = Some (registerContactFromGroupPK E (length (heap m))
             (m\<lparr>contactRequestMetadata := ?x,
                heap := heap m @ [\<lparr>state = st,
                                    contact = \<lparr>PK = k, PublicRendezvousSeed = event_seed ev,
                                               Metadata = event_metadata ev\<rparr>\<rparr>],
                contacts := AList.update k (length (heap m)) (contacts m)\<rparr>))"
    by (auto simp: handleContactRequestOutgoingEnqueued_def new_AccountContact_def)
  then show ?thesis by blast
next
  case (2 k')
  from 2 assms(2,3) have "hs = [handleContactRequestOutgoingSent] \<and>
      handleContactRequestOutgoingSent E ev m = Some (registerContactFromGroupPK E (length (heap m))
             (m\<lparr>contactRequestMetadata := contactRequestMetadata m,
                heap := heap m @ [\<lparr>state = st,
                                    contact = \<lparr>PK = k, PublicRendezvousSeed = event_seed ev,
                                               Metadata = event_metadata ev\<rparr>\<rparr>],
                contacts := AList.update k (length (heap m)) (contacts m)\<rparr>))"
    by (auto simp: handleContactRequestOutgoingSent_def new_AccountContact_def)
  then show ?thesis by blast
next
  case (3 k' sd md)
  from 3 assms(2,3) have "hs = [handleContactRequestIncomingReceived] \<and>
      handleContactRequestIncomingReceived E ev m = Some (registerContactFromGroupPK E (length (heap m))
             (m\<lparr>contactRequestMetadata := contactRequestMetadata m,
                heap := heap m @ [\<lparr>state = st,
                                    contact = \<lparr>PK = k, PublicRendezvousSeed = event_seed ev,
                                               Metadata = event_metadata ev\<rparr>\<rparr>],
                contacts := AList.update k (length (heap m)) (contacts m)\<rparr>))"
    by (auto simp: handleContactRequestIncomingReceived_def new_AccountContact_def)
  then show ?thesis by blast
next
  case (4 k')
  from 4 assms(2,3) have "hs = [handleContactRequestIncomingDiscarded] \<and>
      handleContactRequestIncomingDiscarded E ev m = Some (registerContactFromGroupPK E (length (heap m))
             (m\<lparr>contactRequestMetadata := contactRequestMetadata m,
                heap := heap m @ [\<lparr>state = st,
                                    contact = \<lparr>PK = k, PublicRendezvousSeed = event_seed ev,
                                               Metadata = event_metadata ev\<rparr>\<rparr>],
                contacts := AList.update k (length (heap m)) (contacts m)\<rparr>))"
    by (auto simp: handleContactRequestIncomingDiscarded_def new_AccountContact_def)
  then show ?thesis by blast
next
  case (5 k')
  from 5 assms(2,3) have "hs = [handleContactRequestIncomingAccepted] \<and>
      handleContactRequestIncomingAccepted E ev m = Some (registerContactFromGroupPK E (length (heap m))
             (m\<lparr>contactRequestMetadata := contactRequestMetadata m,
                heap := heap m @ [\<lparr>state = st,
                                    contact = \<lparr>PK = k, PublicRendezvousSeed = event_seed ev,
                                               Metadata = event_metadata ev\<rparr>\<rparr>],
                contacts := AList.update k (length (heap m)) (contacts m)\<rparr>))"
    by (auto simp: handleContactRequestIncomingAccepted_def new_AccountContact_def)
  then show ?thesis by blast
next
  case (6 k')
  from 6 assms(2,3) have "hs = [handleContactBlocked] \<and>
      handleContactBlocked E ev m = Some (registerContactFromGroupPK E (length (heap m))
             (m\<lparr>contactRequestMetadata := contactRequestMetadata m,
                heap := heap m @ [\<lparr>state = st,
                                    contact = \<lparr>PK = k, PublicRendezvousSeed = event_seed ev,
                                               Metadata = event_metadata ev\<rparr>\<rparr>],
                contacts := AList.update k (length (heap m)) (contacts m)\<rparr>))"
    by (auto simp: handleContactBlocked_def new_AccountContact_def)
  then show ?thesis by blast
next
  case (7 k')
  from 7 assms(2,3) have "hs = [handleContactUnblocked] \<and>
      handleContactUnblocked E ev m = Some (registerContactFromGroupPK E (length (heap m))
             (m\<lparr>contactRequestMetadata := contactRequestMetadata m,
                heap := heap m @ [\<lparr>state = st,
                                    contact = \<lparr>PK = k, PublicRendezvousSeed = event_seed ev,
                                               Metadata = event_metadata ev\<rparr>\<rparr>],
                contacts := AList.update k (length (heap m)) (contacts m)\<rparr>))"
    by (auto simp: handleContactUnblocked_def new_AccountContact_def)
  then show ?thesis by blast
qed simp_all


lemma untouched_refl [simp]: "untouched m m"
  by (simp add: untouched_def)

lemma sim_untouched:
  assumes "sim s t" "untouched s s1" "untouched t t1"
  shows "sim s1 t1"
  using assms by (simp add: sim_def untouched_def contact_values_def contacts_wf_def)

lemma contact_values_keys [simp]: "map fst (contact_values m) = map fst (contacts m)"
  by (simp add: contact_values_def case_prod_unfold)

lemma map_of_contact_values:
  "map_of (contact_values m) k = map_option (\<lambda>p. heap m ! p) (map_of (contacts m) k)"
  by (simp add: contact_values_def map_of_map)

lemma sim_contact_absent:
  assumes "sim s t"
  shows "map_of (contacts s) k = None \<longleftrightarrow> map_of (contacts t) k = None"
proof -
  from assms have "map_of (contact_values s) k = map_of (contact_values t) k"
    by (simp add: sim_def)
  then show ?thesis
    by (cases "map_of (contacts s) k"; cases "map_of (contacts t) k")
       (simp_all add: map_of_contact_values)
qed

lemma sim_contact_present:
  assumes "sim s t" "map_of (contacts s) k = Some p"
  shows "\<exists>p'. map_of (contacts t) k = Some p' \<and> heap t ! p' = heap s ! p"
proof -
  from assms have "map_of (contact_values s) k = map_of (contact_values t) k"
    by (simp add: sim_def)
  with assms(2) show ?thesis
    by (cases "map_of (contacts t) k") (simp_all add: map_of_contact_values)
qed

lemma contact_values_new:
  assumes "contacts_wf m" "map_of (contacts m) k = None"
    "heap m' = heap m @ [c]" "contacts m' = AList.update k (length (heap m)) (contacts m)"
  shows "contact_values m' = contact_values m @ [(k, c)]" "contacts_wf m'"
proof -
  have c: "contacts m' = contacts m @ [(k, length (heap m))]"
    using assms(2,4) by (simp add: update_absent)
  have lt: "\<forall>x \<in> set (contacts m). snd x < length (heap m)"
    using assms(1) by (auto simp: contacts_wf_def)
  then show "contact_values m' = contact_values m @ [(k, c)]"
    unfolding contact_values_def c assms(3) by (auto simp: nth_append)
  have "k \<notin> fst ` set (contacts m)" using assms(2) by (simp add: map_of_eq_None_iff)
  moreover have "length (heap m) \<notin> snd ` set (contacts m)" using lt by auto
  ultimately show "contacts_wf m'"
    using assms(1) lt unfolding contacts_wf_def c assms(3) by auto
qed

lemma contact_values_fill:
  assumes "contacts_wf m" "map_of (contacts m) k = Some p"
    "heap m' = (heap m)[p := c]" "contacts m' = contacts m"
  shows "contact_values m' =
           map (\<lambda>(k', c'). if k' = k then (k', c) else (k', c')) (contact_values m)"
    "contacts_wf m'"
proof -
  from assms(1,2) have kp: "(k, p) \<in> set (contacts m)" and p: "p < length (heap m)"
    by (auto simp: contacts_wf_def dest!: map_of_SomeD)
  have "heap m' ! p' = (if k' = k then c else heap m ! p')"
    if "(k', p') \<in> set (contacts m)" for k' p'
  proof (cases "k' = k")
    case True
    with that kp assms(1) have "p' = p"
      by (metis contacts_wf_def eq_key_imp_eq_value)
    with p True show ?thesis by (simp add: assms(3))
  next
    case False
    have "p' \<noteq> p"
    proof
      assume "p' = p"
      with that kp assms(1) have "k' = k"
        unfolding contacts_wf_def
        by (metis (no_types, lifting) distinct_map inj_onD snd_conv fst_conv)
      with False show False by simp
    qed
    with False show ?thesis by (simp add: assms(3))
  qed
  then show "contact_values m' =
           map (\<lambda>(k', c'). if k' = k then (k', c) else (k', c')) (contact_values m)"
    unfolding contact_values_def assms(4) by auto
  show "contacts_wf m'" using assms(1) unfolding contacts_wf_def assms(3,4) by simp
qed


lemma sim_fields:
  "sim s t \<Longrightarrow> sim (s\<lparr>groups := x\<rparr>) (t\<lparr>groups := x\<rparr>)"
  "sim s t \<Longrightarrow> sim (s\<lparr>serviceTokens := y\<rparr>) (t\<lparr>serviceTokens := y\<rparr>)"
  "sim s t \<Longrightarrow> sim (s\<lparr>contactRequestEnabled := b\<rparr>) (t\<lparr>contactRequestEnabled := b\<rparr>)"
  "sim s t \<Longrightarrow> sim (s\<lparr>contactRequestSeed := sd\<rparr>) (t\<lparr>contactRequestSeed := sd\<rparr>)"
  "sim s t \<Longrightarrow> sim (s\<lparr>verifiedCredentials := vc\<rparr>) (t\<lparr>verifiedCredentials := vc\<rparr>)"
  "sim s t \<Longrightarrow> sim (s\<lparr>handledEvents := he\<rparr>) (t\<lparr>handledEvents := he\<rparr>)"
  by (simp_all add: sim_def contact_values_def contacts_wf_def)

lemma sim_eqs:
  assumes "sim s t"
  shows "groups s = groups t" "serviceTokens s = serviceTokens t"
    "contactRequestEnabled s = contactRequestEnabled t"
    "contactRequestSeed s = contactRequestSeed t"
    "verifiedCredentials s = verifiedCredentials t" "handledEvents s = handledEvents t"
    "group s = group t" "ownMemberDevice s = ownMemberDevice t"
  using assms by (simp_all add: sim_def)

lemma handleGroupJoined_sim:
  assumes "handleGroupJoined E ev s = Some (r, s1)" "sim s t"
  shows "\<exists>r' t1. handleGroupJoined E ev t = Some (r', t1) \<and> sim s1 t1"
  using assms sim_eqs(1)[OF assms(2)]
  by (cases ev) (auto simp: handleGroupJoined_def sim_fields split: option.splits)

lemma handleGroupLeft_sim:
  assumes "handleGroupLeft E ev s = Some (r, s1)" "sim s t"
  shows "\<exists>r' t1. handleGroupLeft E ev t = Some (r', t1) \<and> sim s1 t1"
  using assms sim_eqs(1)[OF assms(2)]
  by (cases ev) (auto simp: handleGroupLeft_def sim_fields split: option.splits)

lemma handleContactRequestDisabled_sim:
  assumes "handleContactRequestDisabled E ev s = Some (r, s1)" "sim s t"
  shows "\<exists>r' t1. handleContactRequestDisabled E ev t = Some (r', t1) \<and> sim s1 t1"
  using assms sim_eqs(3)[OF assms(2)]
  by (cases ev) (auto simp: handleContactRequestDisabled_def sim_fields split: if_splits)

lemma handleContactRequestEnabled_sim:
  assumes "handleContactRequestEnabled E ev s = Some (r, s1)" "sim s t"
  shows "\<exists>r' t1. handleContactRequestEnabled E ev t = Some (r', t1) \<and> sim s1 t1"
  using assms sim_eqs(3)[OF assms(2)]
  by (cases ev) (auto simp: handleContactRequestEnabled_def sim_fields split: if_splits)

lemma handleContactRequestReferenceReset_sim:
  assumes "handleContactRequestReferenceReset E ev s = Some (r, s1)" "sim s t"
  shows "\<exists>r' t1. handleContactRequestReferenceReset E ev t = Some (r', t1) \<and> sim s1 t1"
  using assms sim_eqs(4)[OF assms(2)]
  by (cases ev) (auto simp: handleContactRequestReferenceReset_def sim_fields split: if_splits)

lemma handleAccountServiceTokenAdded_sim:
  assumes "handleAccountServiceTokenAdded E ev s = Some (r, s1)" "sim s t"
  shows "\<exists>r' t1. handleAccountServiceTokenAdded E ev t = Some (r', t1) \<and> sim s1 t1"
  using assms sim_eqs(2)[OF assms(2)]
  by (cases ev) (auto simp: handleAccountServiceTokenAdded_def sim_fields split: option.splits)

lemma handleAccountServiceTokenRemoved_sim:
  assumes "handleAccountServiceTokenRemoved E ev s = Some (r, s1)" "sim s t"
  shows "\<exists>r' t1. handleAccountServiceTokenRemoved E ev t = Some (r', t1) \<and> sim s1 t1"
  using assms sim_eqs(2)[OF assms(2)]
  by (cases ev) (auto simp: handleAccountServiceTokenRemoved_def sim_fields)

lemma handleAccountVerifiedCredentialRegistered_sim:
  assumes "handleAccountVerifiedCredentialRegistered E ev s = Some (r, s1)" "sim s t"
  shows "\<exists>r' t1. handleAccountVerifiedCredentialRegistered E ev t = Some (r', t1) \<and> sim s1 t1"
  using assms sim_eqs(5)[OF assms(2)]
  by (cases ev) (auto simp: handleAccountVerifiedCredentialRegistered_def sim_fields)


lemma induced_contact_type:
  "induced_contact ev = Some x \<Longrightarrow>
     type_of_event ev \<in> {EventTypeAccountContactRequestOutgoingEnqueued,
       EventTypeAccountContactRequestOutgoingSent, EventTypeAccountContactRequestIncomingReceived,
       EventTypeAccountContactRequestIncomingDiscarded,
       EventTypeAccountContactRequestIncomingAccepted, EventTypeAccountContactBlocked,
       EventTypeAccountContactUnblocked}"
  by (erule induced_contact.elims) simp_all

lemma induced_group_type:
  "induced_group ev = Some x \<Longrightarrow>
     type_of_event ev \<in> {EventTypeAccountGroupJoined, EventTypeAccountGroupLeft}"
  by (erule induced_group.elims) simp_all

lemma contact_handler_mismatch:
  assumes "eventHandlers ty = Some hs"
    "ty \<in> {EventTypeAccountContactRequestOutgoingEnqueued,
       EventTypeAccountContactRequestOutgoingSent, EventTypeAccountContactRequestIncomingReceived,
       EventTypeAccountContactRequestIncomingDiscarded,
       EventTypeAccountContactRequestIncomingAccepted, EventTypeAccountContactBlocked,
       EventTypeAccountContactUnblocked}"
    "\<not> (ty = type_of_event ev \<and> induced_contact ev \<noteq> None)"
  shows "\<exists>h. hs = [h] \<and> h E ev m = Some (Some (Code ErrInvalidInput), m)"
proof -
  have 1: "handleContactRequestOutgoingEnqueued E ev m = Some (Some (Code ErrInvalidInput), m)"
    if "\<not> (EventTypeAccountContactRequestOutgoingEnqueued = type_of_event ev \<and> induced_contact ev \<noteq> None)"
    using that
    by (cases ev) (auto simp: handleContactRequestOutgoingEnqueued_def split: option.splits)
  have 2: "handleContactRequestOutgoingSent E ev m = Some (Some (Code ErrInvalidInput), m)"
    if "\<not> (EventTypeAccountContactRequestOutgoingSent = type_of_event ev \<and> induced_contact ev \<noteq> None)"
    using that by (cases ev) (auto simp: handleContactRequestOutgoingSent_def)
  have 3: "handleContactRequestIncomingReceived E ev m = Some (Some (Code ErrInvalidInput), m)"
    if "\<not> (EventTypeAccountContactRequestIncomingReceived = type_of_event ev \<and> induced_contact ev \<noteq> None)"
    using that by (cases ev) (auto simp: handleContactRequestIncomingReceived_def)
  have 4: "handleContactRequestIncomingDiscarded E ev m = Some (Some (Code ErrInvalidInput), m)"
    if "\<not> (EventTypeAccountContactRequestIncomingDiscarded = type_of_event ev \<and> induced_contact ev \<noteq> None)"
    using that by (cases ev) (auto simp: handleContactRequestIncomingDiscarded_def)
  have 5: "handleContactRequestIncomingAccepted E ev m = Some (Some (Code ErrInvalidInput), m)"
    if "\<not> (EventTypeAccountContactRequestIncomingAccepted = type_of_event ev \<and> induced_contact ev \<noteq> None)"
    using that by (cases ev) (auto simp: handleContactRequestIncomingAccepted_def)
  have 6: "handleContactBlocked E ev m = Some (Some (Code ErrInvalidInput), m)"
    if "\<not> (EventTypeAccountContactBlocked = type_of_event ev \<and> induced_contact ev \<noteq> None)"
    using that by (cases ev) (auto simp: handleContactBlocked_def)
  have 7: "handleContactUnblocked E ev m = Some (Some (Code ErrInvalidInput), m)"
    if "\<not> (EventTypeAccountContactUnblocked = type_of_event ev \<and> induced_contact ev \<noteq> None)"
    using that by (cases ev) (auto simp: handleContactUnblocked_def)
  from assms show ?thesis
    by (elim insertE emptyE) (use 1 2 3 4 5 6 7 in auto)
qed

lemma registerContactFromGroupPK_untouched:
  "registerContactFromGroupPK E p m = (r, m') \<Longrightarrow> untouched m m'"
  by (auto simp: untouched_def dest!: registerContactFromGroupPK_frame)

lemma untouched_contact_values:
  "untouched m m' \<Longrightarrow> contact_values m' = contact_values m \<and> (contacts_wf m' = contacts_wf m)"
  by (simp add: untouched_def contact_values_def contacts_wf_def)

lemma contact_handler_sim:
  assumes ty: "ty = type_of_event ev" and ic: "induced_contact ev = Some (k, st)"
    and hs: "eventHandlers ty = Some [h]"
    and h: "h E ev s = Some (r, s1)" and sim: "sim s t"
  shows "\<exists>r' t1. h E ev t = Some (r', t1) \<and> sim s1 t1"
proof (cases "map_of (contacts s) k")
  case None
  then have nt: "map_of (contacts t) k = None" using sim_contact_absent[OF sim] by blast
  let ?c = "\<lparr>state = st, contact = \<lparr>PK = k, PublicRendezvousSeed = event_seed ev,
                                      Metadata = event_metadata ev\<rparr>\<rparr>"
  from contact_handler_new[OF ic None hs[unfolded ty], of E] h obtain x where
    s1: "registerContactFromGroupPK E (length (heap s))
             (s\<lparr>contactRequestMetadata := x, heap := heap s @ [?c],
                contacts := AList.update k (length (heap s)) (contacts s)\<rparr>) = (r, s1)"
    (is "registerContactFromGroupPK E _ ?s2 = _")
    by auto
  from contact_handler_new[OF ic nt hs[unfolded ty], of E] obtain x' where
    t1: "h E ev t = Some (registerContactFromGroupPK E (length (heap t))
             (t\<lparr>contactRequestMetadata := x', heap := heap t @ [?c],
                contacts := AList.update k (length (heap t)) (contacts t)\<rparr>))"
    (is "_ = Some (registerContactFromGroupPK E _ ?t2)")
    by auto
  obtain r' t1 where rt: "registerContactFromGroupPK E (length (heap t)) ?t2 = (r', t1)"
    by (cases "registerContactFromGroupPK E (length (heap t)) ?t2")
  from sim have wf: "contacts_wf s" "contacts_wf t" by (simp_all add: sim_def)
  have vs: "contact_values ?s2 = contact_values s @ [(k, ?c)]" "contacts_wf ?s2"
    using contact_values_new[OF wf(1) None, of ?s2 ?c] by simp_all
  have vt: "contact_values ?t2 = contact_values t @ [(k, ?c)]" "contacts_wf ?t2"
    using contact_values_new[OF wf(2) nt, of ?t2 ?c] by simp_all
  have "sim ?s2 ?t2" using sim vs vt by (simp add: sim_def)
  from sim_untouched[OF this registerContactFromGroupPK_untouched[OF s1]
      registerContactFromGroupPK_untouched[OF rt]]
  have "sim s1 t1" .
  with t1 rt show ?thesis by simp
next
  case (Some p)
  from sim_contact_present[OF sim Some] obtain p' where
    p': "map_of (contacts t) k = Some p'" and eq: "heap t ! p' = heap s ! p" by blast
  let ?c = "filled ev (heap s ! p)"
  from contact_handler_existing[OF ic Some hs[unfolded ty], of E] h
  have s1: "s1 = s\<lparr>heap := (heap s)[p := ?c]\<rparr>" by auto
  from contact_handler_existing[OF ic p' hs[unfolded ty], of E] eq
  have t1: "h E ev t = Some (None, t\<lparr>heap := (heap t)[p' := ?c]\<rparr>)" by auto
  from sim have wf: "contacts_wf s" "contacts_wf t" by (simp_all add: sim_def)
  note vs = contact_values_fill[OF wf(1) Some, of "s\<lparr>heap := (heap s)[p := ?c]\<rparr>" ?c]
  note vt = contact_values_fill[OF wf(2) p', of "t\<lparr>heap := (heap t)[p' := ?c]\<rparr>" ?c]
  have "sim (s\<lparr>heap := (heap s)[p := ?c]\<rparr>) (t\<lparr>heap := (heap t)[p' := ?c]\<rparr>)"
    using sim vs vt by (simp add: sim_def)
  with s1 t1 show ?thesis by simp
qed


lemma registry_effect_untouched:
  assumes "effect E ty ev m m'"
    "ty \<in> {EventTypeGroupMemberDeviceAdded, EventTypeGroupDeviceChainKeyAdded,
       EventTypeMultiMemberGroupInitialMemberAnnounced, EventTypeMultiMemberGroupAdminRoleGranted,
       EventTypeContactAliasKeyAdded, EventTypeGroupMetadataPayloadSent}"
  shows "untouched m m'"
  using assms
proof (induction rule: effect.induct)
  case (eff_group m k g)
  from induced_group_type[OF eff_group(3)] eff_group(2,4) show ?case by auto
next
  case (eff_fill k st m p c)
  from induced_contact_type[OF eff_fill(2)] eff_fill(1,6) show ?case by auto
next
  case (eff_new m k c y x)
  from induced_contact_type[OF eff_new(3)] eff_new(2,6) show ?case by auto
qed (auto simp: untouched_def)

lemma registry_handler_returns:
  assumes "eventHandlers ty = Some [h]"
    "ty \<in> {EventTypeGroupMemberDeviceAdded, EventTypeGroupDeviceChainKeyAdded,
       EventTypeMultiMemberGroupInitialMemberAnnounced, EventTypeMultiMemberGroupAdminRoleGranted,
       EventTypeContactAliasKeyAdded, EventTypeGroupMetadataPayloadSent}"
  shows "\<exists>r m'. h E ev m = Some (r, m')"
proof -
  have 1: "\<exists>r m'. handleGroupMemberDeviceAdded E ev m = Some (r, m')"
    by (cases ev) (auto simp: handleGroupMemberDeviceAdded_def Let_def split: sum.splits option.splits)
  have 2: "\<exists>r m'. handleGroupDeviceChainKeyAdded E ev m = Some (r, m')"
    by (cases ev) (auto simp: handleGroupDeviceChainKeyAdded_def split: sum.splits)
  have 3: "\<exists>r m'. handleMultiMemberInitialMember E ev m = Some (r, m')"
    by (cases ev) (auto simp: handleMultiMemberInitialMember_def Let_def split: sum.splits)
  have 4: "\<exists>r m'. handleContactAliasKeyAdded E ev m = Some (r, m')"
    by (cases ev) (auto simp: handleContactAliasKeyAdded_def)
  from assms show ?thesis
    by (elim insertE emptyE)
       (use 1 2 3 4 in \<open>auto simp: handleMultiMemberGrantAdminRole_def
          handleGroupMetadataPayloadSent_def\<close>)
qed

lemma handler_sim:
  assumes hs: "eventHandlers ty = Some [h]" and h: "h E ev s = Some (r, s1)" and sim: "sim s t"
  shows "\<exists>r' t1. h E ev t = Some (r', t1) \<and> sim s1 t1"
proof -
  consider
    (contact) "ty \<in> {EventTypeAccountContactRequestOutgoingEnqueued,
       EventTypeAccountContactRequestOutgoingSent, EventTypeAccountContactRequestIncomingReceived,
       EventTypeAccountContactRequestIncomingDiscarded,
       EventTypeAccountContactRequestIncomingAccepted, EventTypeAccountContactBlocked,
       EventTypeAccountContactUnblocked}"
  | (registry) "ty \<in> {EventTypeGroupMemberDeviceAdded, EventTypeGroupDeviceChainKeyAdded,
       EventTypeMultiMemberGroupInitialMemberAnnounced, EventTypeMultiMemberGroupAdminRoleGranted,
       EventTypeContactAliasKeyAdded, EventTypeGroupMetadataPayloadSent}"
  | (replayed) "ty \<in> {EventTypeAccountGroupJoined, EventTypeAccountGroupLeft,
       EventTypeAccountContactRequestDisabled, EventTypeAccountContactRequestEnabled,
       EventTypeAccountContactRequestReferenceReset, EventTypeAccountServiceTokenAdded,
       EventTypeAccountServiceTokenRemoved, EventTypeAccountVerifiedCredentialRegistered}"
    using hs by (cases ty) simp_all
  then show ?thesis
  proof cases
    case contact
    show ?thesis
    proof (cases "ty = type_of_event ev \<and> induced_contact ev \<noteq> None")
      case True
      then obtain k st where "ty = type_of_event ev" "induced_contact ev = Some (k, st)"
        by auto
      from contact_handler_sim[OF this hs h sim] show ?thesis .
    next
      case False
      from contact_handler_mismatch[OF hs contact False, of E s] h have "s1 = s" by auto
      moreover from contact_handler_mismatch[OF hs contact False, of E t]
      have "h E ev t = Some (Some (Code ErrInvalidInput), t)" by auto
      ultimately show ?thesis using sim by simp
    qed
  next
    case registry
    from registry_handler_returns[OF hs registry, of E ev t] obtain r' t1 where
      t1: "h E ev t = Some (r', t1)" by blast
    have "effect E ty ev s s1" by (rule handlers_effect[where h = h, OF hs _ h]) simp
    then have us: "untouched s s1" using registry by (rule registry_effect_untouched)
    have "effect E ty ev t t1" by (rule handlers_effect[where h = h, OF hs _ t1]) simp
    then have ut: "untouched t t1" using registry by (rule registry_effect_untouched)
    from sim_untouched[OF sim us ut] t1 show ?thesis by blast
  next
    case replayed
    with hs h sim show ?thesis
      by (elim insertE emptyE)
         (auto dest: handleGroupJoined_sim handleGroupLeft_sim handleContactRequestDisabled_sim
            handleContactRequestEnabled_sim handleContactRequestReferenceReset_sim
            handleAccountServiceTokenAdded_sim handleAccountServiceTokenRemoved_sim
            handleAccountVerifiedCredentialRegistered_sim)
  qed
qed


lemma process_entry_sim:
  assumes pe: "process_entry E s e = Some s1" and sim: "sim s t"
  shows "\<exists>t1. process_entry E t e = Some t1 \<and> sim s1 t1"
  using pe
proof (cases rule: process_entry_cases)
  case (undecodable err)
  with sim_eqs(7)[OF sim] have "process_entry E t e = Some (log_error (LogUnableToOpen err) t)"
    by (simp add: process_entry_def)
  moreover have "sim s1 (log_error (LogUnableToOpen err) t)"
    unfolding undecodable(2)
    by (rule sim_untouched[OF sim]) (simp_all add: untouched_def log_error_def)
  ultimately show ?thesis by blast
next
  case (unhandled ty ev)
  with sim_eqs(7)[OF sim]
  have "process_entry E t e = Some (log_error (LogHandlerNotFound ty) (mark_handled e t))"
    by (simp add: process_entry_def)
  moreover have "sim s1 (log_error (LogHandlerNotFound ty) (mark_handled e t))"
    unfolding unhandled(3) mark_handled_def sim_eqs(6)[OF sim]
    by (rule sim_untouched[OF sim_fields(6)[OF sim]]) (simp_all add: untouched_def log_error_def)
  ultimately show ?thesis by blast
next
  case (handled ty ev h r s2)
  from handler_sim[OF handled(2,3) sim] obtain r' t2 where
    t2: "h E ev t = Some (r', t2)" and sim2: "sim s2 t2" by blast
  let ?t1 = "mark_handled e (case r' of None \<Rightarrow> t2 | Some err \<Rightarrow> log_error (LogUnableToHandle err) t2)"
  from handled(1,2) t2 sim_eqs(7)[OF sim] have "process_entry E t e = Some ?t1"
    by (cases r') (simp_all add: process_entry_def)
  moreover have "sim s1 ?t1"
    unfolding handled(5) mark_handled_def
    using sim_fields(6)[OF sim2, of "insert (GetHash e) (handledEvents s2)"] sim_eqs(6)[OF sim2]
    by (auto simp: log_error_def sim_def contact_values_def contacts_wf_def split: option.splits)
  ultimately show ?thesis by blast
qed

lemma same_registry_refl [simp]: "same_registry m m"
  by (simp add: same_registry_def)

lemma other_effect_same_registry:
  assumes "effect E ty ev m m'"
    "ty \<notin> {EventTypeGroupMemberDeviceAdded, EventTypeGroupDeviceChainKeyAdded}"
  shows "same_registry m' m"
  using assms by (induction rule: effect.induct) (auto simp: same_registry_def)

lemma handler_absorbed:
  assumes hs: "eventHandlers ty = Some [h]" and s: "h E ev s = Some (r, s1)"
    and t: "h E ev t = Some (r', t1)" and own: "ownMemberDevice s = ownMemberDevice t"
    and c: "registry_contains s1 t"
  shows "same_registry t1 t"
proof (cases "ty \<in> {EventTypeGroupMemberDeviceAdded, EventTypeGroupDeviceChainKeyAdded}")
  case False
  have "effect E ty ev t t1" by (rule handlers_effect[where h = h, OF hs _ t]) simp
  then show ?thesis using False by (rule other_effect_same_registry)
next
  case True
  then consider (dev) "ty = EventTypeGroupMemberDeviceAdded"
    | (key) "ty = EventTypeGroupDeviceChainKeyAdded" by blast
  then show ?thesis
  proof cases
    case dev
    with hs have h: "h = handleGroupMemberDeviceAdded" by simp
    show ?thesis
    proof (cases ev)
      case (GroupMemberDeviceAdded mpk dpk)
      show ?thesis
      proof (cases "length mpk = 32 \<and> length dpk = 32")
        case True
        with s h GroupMemberDeviceAdded have "map_of (devices s1) dpk \<noteq> None"
          by (auto simp: handleGroupMemberDeviceAdded_def UnmarshalEd25519PublicKey_def Let_def
              update_conv' split: option.splits)
        with c have "map_of (devices t) dpk \<noteq> None" by (simp add: registry_contains_def)
        with t h GroupMemberDeviceAdded True show ?thesis
          by (auto simp: handleGroupMemberDeviceAdded_def UnmarshalEd25519PublicKey_def)
      next
        case False
        with t h GroupMemberDeviceAdded show ?thesis
          by (auto simp: handleGroupMemberDeviceAdded_def UnmarshalEd25519PublicKey_def
              split: if_splits)
      qed
    qed (use t h in \<open>auto simp: handleGroupMemberDeviceAdded_def\<close>)
  next
    case key
    with hs have h: "h = handleGroupDeviceChainKeyAdded" by simp
    show ?thesis
    proof (cases ev)
      case (GroupDeviceChainKeyAdded dpk dest)
      show ?thesis
      proof (cases "length dest = 32 \<and> length dpk = 32 \<and>
                    Device (ownMemberDevice t) = Ed25519PublicKey dpk")
        case True
        with s h own GroupDeviceChainKeyAdded have "dest \<in> sentSecrets s1"
          by (auto simp: handleGroupDeviceChainKeyAdded_def UnmarshalEd25519PublicKey_def)
        with c have "dest \<in> sentSecrets t" by (auto simp: registry_contains_def)
        with t h GroupDeviceChainKeyAdded True show ?thesis
          by (auto simp: handleGroupDeviceChainKeyAdded_def UnmarshalEd25519PublicKey_def
              same_registry_def insert_absorb)
      next
        case False
        with t h GroupDeviceChainKeyAdded show ?thesis
          by (auto simp: handleGroupDeviceChainKeyAdded_def UnmarshalEd25519PublicKey_def
              split: if_splits)
      qed
    qed (use t h in \<open>auto simp: handleGroupDeviceChainKeyAdded_def\<close>)
  qed
qed

lemma process_entry_absorbed:
  assumes s: "process_entry E s e = Some s1" and t: "process_entry E t e = Some t1"
    and g: "group s = group t" and own: "ownMemberDevice s = ownMemberDevice t"
    and c: "registry_contains s1 t"
  shows "same_registry t1 t"
  using t
proof (cases rule: process_entry_cases)
  case (handled ty ev h r' t2)
  from s show ?thesis
  proof (cases rule: process_entry_cases)
    case handled': (handled ty' ev' h' r s2)
    from handled(1) handled'(1) g have eq: "ty' = ty" "ev' = ev" by simp_all
    with handled(2) handled'(2) have hh: "h' = h" by simp
    have "registry_contains s2 t"
      using c handled'(5)
      by (auto simp: registry_contains_def mark_handled_def log_error_def split: option.splits)
    from handler_absorbed[OF handled(2) handled'(3)[unfolded hh eq] handled(3) own this]
    show ?thesis using handled(5)
      by (auto simp: same_registry_def mark_handled_def log_error_def split: option.splits)
  qed (use handled g in auto)
qed (auto simp: same_registry_def mark_handled_def log_error_def)


lemma other_effect_admins:
  assumes "effect E ty ev m m'" "ty \<noteq> EventTypeMultiMemberGroupInitialMemberAnnounced"
  shows "admins m' = admins m"
  using assms by (induction rule: effect.induct) auto

text \<open>Two runs of one handler on one event add the same keys to the admins map.\<close>

lemma handler_admins:
  assumes hs: "eventHandlers ty = Some [h]" and s: "h E ev s = Some (r, s1)"
    and t: "h E ev t = Some (r', t1)"
  shows "\<exists>ks. listAdmins s1 = listAdmins s @ ks \<and> listAdmins t1 = listAdmins t @ ks"
proof (cases "ty = EventTypeMultiMemberGroupInitialMemberAnnounced")
  case False
  have "effect E ty ev s s1" by (rule handlers_effect[where h = h, OF hs _ s]) simp
  from other_effect_admins[OF this False] have 1: "admins s1 = admins s" .
  have "effect E ty ev t t1" by (rule handlers_effect[where h = h, OF hs _ t]) simp
  from other_effect_admins[OF this False] have 2: "admins t1 = admins t" .
  from 1 2 show ?thesis by (simp add: listAdmins_def)
next
  case True
  with hs have h: "h = handleMultiMemberInitialMember" by simp
  show ?thesis
  proof (cases "\<exists>mpk. ev = MultiMemberGroupInitialMemberAnnounced mpk \<and> length mpk = 32")
    case True
    then obtain mpk where ev: "ev = MultiMemberGroupInitialMemberAnnounced mpk"
      and l: "length mpk = 32" by blast
    from s t show ?thesis
      unfolding h ev handleMultiMemberInitialMember_adds[OF l]
      by (auto simp: listAdmins_def)
  next
    case False
    have "s1 = s" using s False unfolding h
      by (cases ev)
         (auto simp: handleMultiMemberInitialMember_def UnmarshalEd25519PublicKey_def
            split: if_splits)
    moreover have "t1 = t" using t False unfolding h
      by (cases ev)
         (auto simp: handleMultiMemberInitialMember_def UnmarshalEd25519PublicKey_def
            split: if_splits)
    ultimately show ?thesis by simp
  qed
qed

lemma process_entry_admins:
  assumes s: "process_entry E s e = Some s1" and t: "process_entry E t e = Some t1"
    and g: "group s = group t"
  shows "\<exists>ks. listAdmins s1 = listAdmins s @ ks \<and> listAdmins t1 = listAdmins t @ ks"
  using t
proof (cases rule: process_entry_cases)
  case (handled ty ev h r' t2)
  from s show ?thesis
  proof (cases rule: process_entry_cases)
    case handled': (handled ty' ev' h' r s2)
    from handled(1) handled'(1) g have eq: "ty' = ty" "ev' = ev" by simp_all
    with handled(2) handled'(2) have hh: "h' = h" by simp
    from handler_admins[OF handled(2) handled'(3)[unfolded hh eq] handled(3)]
    show ?thesis using handled(5) handled'(5)
      by (auto simp: listAdmins_def mark_handled_def log_error_def split: option.splits)
  qed (use handled g in auto)
next
  case (undecodable err)
  with s g show ?thesis
    by (auto simp: process_entry_def listAdmins_def log_error_def)
next
  case (unhandled ty ev)
  with s g show ?thesis
    by (auto simp: process_entry_def listAdmins_def log_error_def mark_handled_def)
qed

lemma registry_contains_kept:
  assumes "kept s1 s'" "same_registry t s'"
  shows "registry_contains s1 t"
  using assms unfolding kept_def same_registry_def registry_contains_def
  by (metis not_None_eq)

lemma same_registry_trans: "same_registry a b \<Longrightarrow> same_registry b c \<Longrightarrow> same_registry a c"
  by (simp add: same_registry_def)

lemma replay_sim:
  assumes "replay E s es = Some s'" "sim s t" "same_registry t s'"
  shows "\<exists>t' ks. replay E t es = Some t' \<and> sim s' t' \<and> same_registry t' s' \<and>
           listAdmins s' = listAdmins s @ ks \<and> listAdmins t' = listAdmins t @ ks"
  using assms
proof (induction es arbitrary: s t)
  case Nil
  then show ?case by simp
next
  case (Cons e es)
  from Cons.prems(1) obtain s1 where lb: "loop_body E s e = Some s1"
    and rest: "replay E s1 es = Some s'"
    by (auto split: option.splits)
  note eqs = sim_eqs(6,7,8)[OF Cons.prems(2)]
  show ?case
  proof (cases "GroupType (group s) \<noteq> GroupTypeAccount \<and> GetHash e \<in> handledEvents s")
    case True
    with lb have "s1 = s" by (simp add: loop_body_def)
    moreover from True eqs have "loop_body E t e = Some t" by (simp add: loop_body_def)
    ultimately show ?thesis
      using Cons.IH[OF _ Cons.prems(2,3)] rest by simp
  next
    case False
    with lb have pe: "process_entry E s e = Some s1" by (auto simp: loop_body_def)
    from process_entry_sim[OF pe Cons.prems(2)] obtain t1 where
      pt: "process_entry E t e = Some t1" and sim1: "sim s1 t1" by blast
    from False eqs pt have lt: "loop_body E t e = Some t1" by (auto simp: loop_body_def)
    have "registry_contains s1 t"
      using registry_contains_kept[OF replay_kept[OF rest] Cons.prems(3)] .
    from process_entry_absorbed[OF pe pt eqs(2,3) this] have "same_registry t1 t" .
    from same_registry_trans[OF this Cons.prems(3)] have "same_registry t1 s'" .
    from Cons.IH[OF rest sim1 this] obtain t' ks where
      t': "replay E t1 es = Some t'" "sim s' t'" "same_registry t' s'"
      "listAdmins s' = listAdmins s1 @ ks" "listAdmins t' = listAdmins t1 @ ks" by blast
    from process_entry_admins[OF pe pt eqs(2)] obtain ks1 where
      "listAdmins s1 = listAdmins s @ ks1" "listAdmins t1 = listAdmins t @ ks1" by blast
    with t'(4,5) have "listAdmins s' = listAdmins s @ (ks1 @ ks)"
      "listAdmins t' = listAdmins t @ (ks1 @ ks)" by simp_all
    with t'(1-3) lt show ?thesis by auto
  qed
qed

lemma listContacts_values_eq: "listContacts_values m = contact_values m"
proof -
  let ?cs = "contacts m"
  let ?n = "length (heap m)"
  let ?f = "\<lambda>(k, p). \<lparr>state = state (heap m ! p),
                         contact = \<lparr>PK = PK (contact (heap m ! p)),
                                    PublicRendezvousSeed = PublicRendezvousSeed (contact (heap m ! p)),
                                    Metadata = Metadata (contact (heap m ! p))\<rparr>\<rparr>"
  have f: "?f x = heap m ! snd x" for x
    by (cases x) simp
  have "map (\<lambda>(k, p). (k, (heap m @ map ?f ?cs) ! p)) (zip (map fst ?cs) [?n ..< ?n + length ?cs]) =
        map (\<lambda>(k, p). (k, heap m ! p)) ?cs"
  proof (rule nth_equalityI)
    show "length (map (\<lambda>(k, p). (k, (heap m @ map ?f ?cs) ! p))
            (zip (map fst ?cs) [?n ..< ?n + length ?cs])) =
          length (map (\<lambda>(k, p). (k, heap m ! p)) ?cs)" by simp
  next
    fix i assume "i < length (map (\<lambda>(k, p). (k, (heap m @ map ?f ?cs) ! p))
            (zip (map fst ?cs) [?n ..< ?n + length ?cs]))"
    then have i: "i < length ?cs" by simp
    then show "map (\<lambda>(k, p). (k, (heap m @ map ?f ?cs) ! p))
            (zip (map fst ?cs) [?n ..< ?n + length ?cs]) ! i =
          map (\<lambda>(k, p). (k, heap m ! p)) ?cs ! i"
      using f[of "?cs ! i"] by (simp add: nth_append case_prod_unfold)
  qed
  then show ?thesis
    by (simp add: listContacts_values_def listContacts_def contact_values_def)
qed

lemma getContact_value_eq:
  "getContact_value m pk =
     (case map_of (contact_values m) (Raw pk) of
        None \<Rightarrow> Inl (Code ErrMissingMapKey) | Some c \<Rightarrow> Inr c)"
  by (simp add: getContact_value_def getContact_def map_of_contact_values split: option.splits)

lemma other_queries_eq:
  assumes "same_registry a b" "sim a b"
  shows "other_queries a = other_queries b"
  using assms
  by (simp add: other_queries_def same_registry_def sim_def MemberCount_def DeviceCount_def
      listMembers_def listDevices_def listOtherMembersDevices_def
      listServiceTokens_def listVerifiedCredentials_def contactRequestsEnabled_def
      contactRequestsSeed_def listContacts_values_eq getMemberByDevice_def
      unsafeGetMemberByDevice_def getDevicesForMember_def areSecretsAlreadySent_def
      getContact_value_eq fun_eq_iff)

lemma effect_ownMemberDevice_replay:
  "replay E m es = Some m' \<Longrightarrow> ownMemberDevice m' = ownMemberDevice m"
proof (induction es arbitrary: m)
  case Nil
  then show ?case by simp
next
  case (Cons e es)
  from Cons.prems obtain m1 where lb: "loop_body E m e = Some m1"
    and rest: "replay E m1 es = Some m'"
    by (auto split: option.splits)
  have "ownMemberDevice m1 = ownMemberDevice m"
  proof (cases "GroupType (group m) \<noteq> GroupTypeAccount \<and> GetHash e \<in> handledEvents m")
    case True
    with lb show ?thesis by (simp add: loop_body_def)
  next
    case False
    with lb have "process_entry E m e = Some m1" by (auto simp: loop_body_def)
    then show ?thesis
      by (cases rule: process_entry_cases)
         (auto simp: log_error_def mark_handled_def split: option.splits)
  qed
  with Cons.IH[OF rest] show ?case by simp
qed

text \<open>A second call of \<open>UpdateIndex\<close> over the same log returns as the first did; every
  query but \<open>listAdmins\<close> answers as after the first call, and \<open>listAdmins\<close> lists once
  more the keys that the first call added.\<close>

lemma second_replay:
  assumes "UpdateIndex E m entries = Some (r1, m1)"
  shows "\<exists>r2 m2. UpdateIndex E m1 entries = Some (r2, m2) \<and>
                  other_queries m2 = other_queries m1 \<and>
                  listAdmins m2 = listAdmins m1 @ drop (length (listAdmins m)) (listAdmins m1)"
proof -
  from assms obtain s' where rp: "replay E (reset m) (rev entries) = Some s'"
    and post: "run_postIndexActions postIndexActions s' = (r1, m1)"
    by (rule UpdateIndex_split)
  note f1 = run_postIndexActions_fields[OF post]
  have g: "group s' = group m" "ownMemberDevice s' = ownMemberDevice m"
    using replay_group[OF rp] effect_ownMemberDevice_replay[OF rp] by (simp_all add: reset_def)
  have sim0: "sim (reset m) (reset m1)"
    using g f1(15,16)
    by (simp add: sim_def reset_def contact_values_def contacts_wf_def)
  have reg0: "same_registry (reset m1) s'"
    using f1(7-10) by (simp add: same_registry_def reset_def)
  from replay_sim[OF rp sim0 reg0] obtain t' ks where
    rt: "replay E (reset m1) (rev entries) = Some t'" and sim': "sim s' t'"
    and reg': "same_registry t' s'"
    and a1: "listAdmins s' = listAdmins (reset m) @ ks"
    and a2: "listAdmins t' = listAdmins (reset m1) @ ks" by blast
  obtain r2 m2 where post2: "run_postIndexActions postIndexActions t' = (r2, m2)"
    by (cases "run_postIndexActions postIndexActions t'")
  note f2 = run_postIndexActions_fields[OF post2]
  have u2: "UpdateIndex E m1 entries = Some (r2, m2)"
    using rt post2 by (simp add: UpdateIndex_def)
  have "same_registry m2 m1"
    using reg' f1(7-10) f2(7-10) by (simp add: same_registry_def)
  moreover have "sim m2 m1"
    using sim' f1(2-6,12-16) f2(2-6,12-16)
    by (simp add: sim_def contact_values_def contacts_wf_def)
  ultimately have q: "other_queries m2 = other_queries m1" by (rule other_queries_eq)
  have "listAdmins m1 = listAdmins m @ ks" "listAdmins m2 = listAdmins m1 @ ks"
    using a1 a2 f1(9) f2(9) by (simp_all add: listAdmins_def reset_def)
  then have "listAdmins m2 = listAdmins m1 @ drop (length (listAdmins m)) (listAdmins m1)"
    by simp
  with u2 q show ?thesis by blast
qed

text \<open>A handler of the table panics on exactly these events; every other call returns.\<close>
lemma handleContactBlocked_returns: "handleContactBlocked E ev m \<noteq> None"
  by (cases ev)
     (auto simp: handleContactBlocked_def new_AccountContact_def Let_def
        split: option.splits sum.splits prod.splits)
lemma handleContactRequestDisabled_returns: "handleContactRequestDisabled E ev m \<noteq> None"
  by (cases ev)
     (auto simp: handleContactRequestDisabled_def new_AccountContact_def Let_def
        split: option.splits sum.splits prod.splits)
lemma handleContactRequestEnabled_returns: "handleContactRequestEnabled E ev m \<noteq> None"
  by (cases ev)
     (auto simp: handleContactRequestEnabled_def new_AccountContact_def Let_def
        split: option.splits sum.splits prod.splits)
lemma handleContactRequestIncomingAccepted_returns: "handleContactRequestIncomingAccepted E ev m \<noteq> None"
  by (cases ev)
     (auto simp: handleContactRequestIncomingAccepted_def new_AccountContact_def Let_def
        split: option.splits sum.splits prod.splits)
lemma handleContactRequestIncomingDiscarded_returns: "handleContactRequestIncomingDiscarded E ev m \<noteq> None"
  by (cases ev)
     (auto simp: handleContactRequestIncomingDiscarded_def new_AccountContact_def Let_def
        split: option.splits sum.splits prod.splits)
lemma handleContactRequestIncomingReceived_returns: "handleContactRequestIncomingReceived E ev m \<noteq> None"
  by (cases ev)
     (auto simp: handleContactRequestIncomingReceived_def new_AccountContact_def Let_def
        split: option.splits sum.splits prod.splits)
lemma handleContactRequestOutgoingEnqueued_returns: "handleContactRequestOutgoingEnqueued E ev m \<noteq> None"
  by (cases ev)
     (auto simp: handleContactRequestOutgoingEnqueued_def new_AccountContact_def Let_def
        split: option.splits sum.splits prod.splits)
lemma handleContactRequestOutgoingSent_returns: "handleContactRequestOutgoingSent E ev m \<noteq> None"
  by (cases ev)
     (auto simp: handleContactRequestOutgoingSent_def new_AccountContact_def Let_def
        split: option.splits sum.splits prod.splits)
lemma handleContactRequestReferenceReset_returns: "handleContactRequestReferenceReset E ev m \<noteq> None"
  by (cases ev)
     (auto simp: handleContactRequestReferenceReset_def new_AccountContact_def Let_def
        split: option.splits sum.splits prod.splits)
lemma handleContactUnblocked_returns: "handleContactUnblocked E ev m \<noteq> None"
  by (cases ev)
     (auto simp: handleContactUnblocked_def new_AccountContact_def Let_def
        split: option.splits sum.splits prod.splits)
lemma handleGroupLeft_returns: "handleGroupLeft E ev m \<noteq> None"
  by (cases ev)
     (auto simp: handleGroupLeft_def new_AccountContact_def Let_def
        split: option.splits sum.splits prod.splits)
lemma handleContactAliasKeyAdded_returns: "handleContactAliasKeyAdded E ev m \<noteq> None"
  by (cases ev)
     (auto simp: handleContactAliasKeyAdded_def new_AccountContact_def Let_def
        split: option.splits sum.splits prod.splits)
lemma handleGroupDeviceChainKeyAdded_returns: "handleGroupDeviceChainKeyAdded E ev m \<noteq> None"
  by (cases ev)
     (auto simp: handleGroupDeviceChainKeyAdded_def new_AccountContact_def Let_def
        split: option.splits sum.splits prod.splits)
lemma handleGroupMemberDeviceAdded_returns: "handleGroupMemberDeviceAdded E ev m \<noteq> None"
  by (cases ev)
     (auto simp: handleGroupMemberDeviceAdded_def new_AccountContact_def Let_def
        split: option.splits sum.splits prod.splits)
lemma handleMultiMemberGrantAdminRole_returns: "handleMultiMemberGrantAdminRole E ev m \<noteq> None"
  by (cases ev)
     (auto simp: handleMultiMemberGrantAdminRole_def new_AccountContact_def Let_def
        split: option.splits sum.splits prod.splits)
lemma handleMultiMemberInitialMember_returns: "handleMultiMemberInitialMember E ev m \<noteq> None"
  by (cases ev)
     (auto simp: handleMultiMemberInitialMember_def new_AccountContact_def Let_def
        split: option.splits sum.splits prod.splits)
lemma handleAccountServiceTokenRemoved_returns: "handleAccountServiceTokenRemoved E ev m \<noteq> None"
  by (cases ev)
     (auto simp: handleAccountServiceTokenRemoved_def new_AccountContact_def Let_def
        split: option.splits sum.splits prod.splits)
lemma handleGroupMetadataPayloadSent_returns: "handleGroupMetadataPayloadSent E ev m \<noteq> None"
  by (cases ev)
     (auto simp: handleGroupMetadataPayloadSent_def new_AccountContact_def Let_def
        split: option.splits sum.splits prod.splits)
lemma handleAccountVerifiedCredentialRegistered_returns: "handleAccountVerifiedCredentialRegistered E ev m \<noteq> None"
  by (cases ev)
     (auto simp: handleAccountVerifiedCredentialRegistered_def new_AccountContact_def Let_def
        split: option.splits sum.splits prod.splits)
lemma handleGroupJoined_None_iff:
  "handleGroupJoined E ev m = None \<longleftrightarrow> ev = AccountGroupJoined None"
  by (cases ev) (auto simp: handleGroupJoined_def split: option.splits)

lemma handleAccountServiceTokenAdded_None_iff:
  "handleAccountServiceTokenAdded E ev m = None \<longleftrightarrow>
     (\<exists>t. ev = AccountServiceTokenAdded t \<and> TokenID E t = None)"
  by (cases ev) (auto simp: handleAccountServiceTokenAdded_def split: option.splits)

lemma handler_None_iff:
  assumes "eventHandlers ty = Some [h]"
  shows "h E ev m = None \<longleftrightarrow> panics E ty ev"
proof (cases ty)
  case EventTypeUndefined
  with assms show ?thesis by simp
next
  case EventTypeAccountContactBlocked
  with assms have h: "h = handleContactBlocked" by simp
  show ?thesis using handleContactBlocked_returns[of E ev m] EventTypeAccountContactBlocked
    unfolding h by (cases ev) (simp_all add: panics_def)
next
  case EventTypeAccountContactRequestDisabled
  with assms have h: "h = handleContactRequestDisabled" by simp
  show ?thesis using handleContactRequestDisabled_returns[of E ev m] EventTypeAccountContactRequestDisabled
    unfolding h by (cases ev) (simp_all add: panics_def)
next
  case EventTypeAccountContactRequestEnabled
  with assms have h: "h = handleContactRequestEnabled" by simp
  show ?thesis using handleContactRequestEnabled_returns[of E ev m] EventTypeAccountContactRequestEnabled
    unfolding h by (cases ev) (simp_all add: panics_def)
next
  case EventTypeAccountContactRequestIncomingAccepted
  with assms have h: "h = handleContactRequestIncomingAccepted" by simp
  show ?thesis using handleContactRequestIncomingAccepted_returns[of E ev m] EventTypeAccountContactRequestIncomingAccepted
    unfolding h by (cases ev) (simp_all add: panics_def)
next
  case EventTypeAccountContactRequestIncomingDiscarded
  with assms have h: "h = handleContactRequestIncomingDiscarded" by simp
  show ?thesis using handleContactRequestIncomingDiscarded_returns[of E ev m] EventTypeAccountContactRequestIncomingDiscarded
    unfolding h by (cases ev) (simp_all add: panics_def)
next
  case EventTypeAccountContactRequestIncomingReceived
  with assms have h: "h = handleContactRequestIncomingReceived" by simp
  show ?thesis using handleContactRequestIncomingReceived_returns[of E ev m] EventTypeAccountContactRequestIncomingReceived
    unfolding h by (cases ev) (simp_all add: panics_def)
next
  case EventTypeAccountContactRequestOutgoingEnqueued
  with assms have h: "h = handleContactRequestOutgoingEnqueued" by simp
  show ?thesis using handleContactRequestOutgoingEnqueued_returns[of E ev m] EventTypeAccountContactRequestOutgoingEnqueued
    unfolding h by (cases ev) (simp_all add: panics_def)
next
  case EventTypeAccountContactRequestOutgoingSent
  with assms have h: "h = handleContactRequestOutgoingSent" by simp
  show ?thesis using handleContactRequestOutgoingSent_returns[of E ev m] EventTypeAccountContactRequestOutgoingSent
    unfolding h by (cases ev) (simp_all add: panics_def)
next
  case EventTypeAccountContactRequestReferenceReset
  with assms have h: "h = handleContactRequestReferenceReset" by simp
  show ?thesis using handleContactRequestReferenceReset_returns[of E ev m] EventTypeAccountContactRequestReferenceReset
    unfolding h by (cases ev) (simp_all add: panics_def)
next
  case EventTypeAccountContactUnblocked
  with assms have h: "h = handleContactUnblocked" by simp
  show ?thesis using handleContactUnblocked_returns[of E ev m] EventTypeAccountContactUnblocked
    unfolding h by (cases ev) (simp_all add: panics_def)
next
  case EventTypeAccountGroupJoined
  with assms have h: "h = handleGroupJoined" by simp
  show ?thesis unfolding h handleGroupJoined_None_iff
    using EventTypeAccountGroupJoined by (cases ev) (simp_all add: panics_def)
next
  case EventTypeAccountGroupLeft
  with assms have h: "h = handleGroupLeft" by simp
  show ?thesis using handleGroupLeft_returns[of E ev m] EventTypeAccountGroupLeft
    unfolding h by (cases ev) (simp_all add: panics_def)
next
  case EventTypeContactAliasKeyAdded
  with assms have h: "h = handleContactAliasKeyAdded" by simp
  show ?thesis using handleContactAliasKeyAdded_returns[of E ev m] EventTypeContactAliasKeyAdded
    unfolding h by (cases ev) (simp_all add: panics_def)
next
  case EventTypeGroupDeviceChainKeyAdded
  with assms have h: "h = handleGroupDeviceChainKeyAdded" by simp
  show ?thesis using handleGroupDeviceChainKeyAdded_returns[of E ev m] EventTypeGroupDeviceChainKeyAdded
    unfolding h by (cases ev) (simp_all add: panics_def)
next
  case EventTypeGroupMemberDeviceAdded
  with assms have h: "h = handleGroupMemberDeviceAdded" by simp
  show ?thesis using handleGroupMemberDeviceAdded_returns[of E ev m] EventTypeGroupMemberDeviceAdded
    unfolding h by (cases ev) (simp_all add: panics_def)
next
  case EventTypeMultiMemberGroupAdminRoleGranted
  with assms have h: "h = handleMultiMemberGrantAdminRole" by simp
  show ?thesis using handleMultiMemberGrantAdminRole_returns[of E ev m] EventTypeMultiMemberGroupAdminRoleGranted
    unfolding h by (cases ev) (simp_all add: panics_def)
next
  case EventTypeMultiMemberGroupInitialMemberAnnounced
  with assms have h: "h = handleMultiMemberInitialMember" by simp
  show ?thesis using handleMultiMemberInitialMember_returns[of E ev m] EventTypeMultiMemberGroupInitialMemberAnnounced
    unfolding h by (cases ev) (simp_all add: panics_def)
next
  case EventTypeAccountServiceTokenAdded
  with assms have h: "h = handleAccountServiceTokenAdded" by simp
  show ?thesis unfolding h handleAccountServiceTokenAdded_None_iff
    using EventTypeAccountServiceTokenAdded by (cases ev) (simp_all add: panics_def)
next
  case EventTypeAccountServiceTokenRemoved
  with assms have h: "h = handleAccountServiceTokenRemoved" by simp
  show ?thesis using handleAccountServiceTokenRemoved_returns[of E ev m] EventTypeAccountServiceTokenRemoved
    unfolding h by (cases ev) (simp_all add: panics_def)
next
  case EventTypeGroupMetadataPayloadSent
  with assms have h: "h = handleGroupMetadataPayloadSent" by simp
  show ?thesis using handleGroupMetadataPayloadSent_returns[of E ev m] EventTypeGroupMetadataPayloadSent
    unfolding h by (cases ev) (simp_all add: panics_def)
next
  case EventTypeAccountVerifiedCredentialRegistered
  with assms have h: "h = handleAccountVerifiedCredentialRegistered" by simp
  show ?thesis using handleAccountVerifiedCredentialRegistered_returns[of E ev m] EventTypeAccountVerifiedCredentialRegistered
    unfolding h by (cases ev) (simp_all add: panics_def)
qed

lemma process_entry_None_iff:
  "process_entry E m e = None \<longleftrightarrow> entry_panics E (group m) e"
proof (cases "openMetadataEntry E (group m) e")
  case (Inl err)
  then show ?thesis by (simp add: process_entry_def entry_panics_def)
next
  case (Inr p)
  obtain ty ev where p: "p = (ty, ev)" by (cases p)
  show ?thesis
  proof (cases "eventHandlers ty")
    case None
    then have "ty = EventTypeUndefined" by (cases ty) simp_all
    then have "\<not> panics E ty ev" by (cases ev) (simp_all add: panics_def)
    with Inr p None show ?thesis by (simp add: process_entry_def entry_panics_def)
  next
    case (Some hs)
    from eventHandlers_single[OF Some] obtain h where hs: "hs = [h]" by blast
    from handler_None_iff[OF Some[unfolded hs], of E ev m]
    show ?thesis using Inr p Some hs
      by (auto simp: process_entry_def entry_panics_def split: option.splits)
  qed
qed

lemma replay_returns:
  "\<forall>e \<in> set es. \<not> entry_panics E (group m) e \<Longrightarrow> \<exists>m'. replay E m es = Some m'"
proof (induction es arbitrary: m)
  case Nil
  then show ?case by simp
next
  case (Cons e es)
  from Cons.prems have "process_entry E m e \<noteq> None" by (simp add: process_entry_None_iff)
  then have "loop_body E m e \<noteq> None" by (auto simp: loop_body_def)
  then obtain m1 where lb: "loop_body E m e = Some m1" by blast
  from loop_body_group[OF lb] Cons.prems have "\<forall>e \<in> set es. \<not> entry_panics E (group m1) e"
    by simp
  from Cons.IH[OF this] lb show ?case by simp
qed

lemma UpdateIndex_returns:
  assumes "\<forall>e \<in> set entries. \<not> entry_panics E (group m) e"
  shows "\<exists>r m'. UpdateIndex E m entries = Some (r, m')"
proof -
  have "\<forall>e \<in> set (rev entries). \<not> entry_panics E (group (reset m)) e"
    using assms by (simp add: reset_def)
  from replay_returns[OF this] obtain m1 where "replay E (reset m) (rev entries) = Some m1"
    by blast
  then show ?thesis
    by (cases "run_postIndexActions postIndexActions m1") (simp add: UpdateIndex_def)
qed

lemma filled_fields:
  "state (filled ev c) = state c"
  "PK (contact (filled ev c)) = PK (contact c)"
  "Metadata (contact (filled ev c)) =
     (if Metadata (contact c) = None then event_metadata ev else Metadata (contact c))"
  "PublicRendezvousSeed (contact (filled ev c)) =
     (if PublicRendezvousSeed (contact c) = None then event_seed ev
      else PublicRendezvousSeed (contact c))"
  by (auto simp: filled_def Let_def)

lemma contact_handler_creates:
  assumes "induced_contact ev = Some (k, st)" "map_of (contacts s) k = None"
  shows "\<exists>h err s'. eventHandlers (type_of_event ev) = Some [h] \<and> h E ev s = Some (err, s') \<and>
           map_of (contacts s') k = Some (length (heap s)) \<and>
           heap s' = heap s @ [\<lparr>state = st,
                                 contact = \<lparr>PK = k, PublicRendezvousSeed = event_seed ev,
                                            Metadata = event_metadata ev\<rparr>\<rparr>]"
proof -
  from eventHandlers_type_of_event[of ev] obtain hs where
    hs: "eventHandlers (type_of_event ev) = Some hs" by blast
  from contact_handler_new[OF assms hs, of E] obtain h x where h: "hs = [h]"
    and r: "h E ev s = Some (registerContactFromGroupPK E (length (heap s))
             (s\<lparr>contactRequestMetadata := x,
                heap := heap s @ [\<lparr>state = st,
                                    contact = \<lparr>PK = k, PublicRendezvousSeed = event_seed ev,
                                               Metadata = event_metadata ev\<rparr>\<rparr>],
                contacts := AList.update k (length (heap s)) (contacts s)\<rparr>))"
    by blast
  let ?s1 = "s\<lparr>contactRequestMetadata := x,
                heap := heap s @ [\<lparr>state = st,
                                    contact = \<lparr>PK = k, PublicRendezvousSeed = event_seed ev,
                                               Metadata = event_metadata ev\<rparr>\<rparr>],
                contacts := AList.update k (length (heap s)) (contacts s)\<rparr>"
  obtain err s' where reg: "registerContactFromGroupPK E (length (heap s)) ?s1 = (err, s')"
    by (cases "registerContactFromGroupPK E (length (heap s)) ?s1")
  from registerContactFromGroupPK_frame[OF reg]
  have "contacts s' = contacts ?s1" "heap s' = heap ?s1" by auto
  then have "map_of (contacts s') k = Some (length (heap s))"
    "heap s' = heap s @ [\<lparr>state = st,
                                 contact = \<lparr>PK = k, PublicRendezvousSeed = event_seed ev,
                                            Metadata = event_metadata ev\<rparr>\<rparr>]"
    by (simp_all add: update_conv')
  with hs h r reg show ?thesis by auto
qed

lemma contact_handler_fills:
  assumes "induced_contact ev = Some (k, st)" "map_of (contacts s) k = Some p"
  shows "\<exists>h. eventHandlers (type_of_event ev) = Some [h] \<and>
           h E ev s = Some (None, s\<lparr>heap := (heap s)[p := filled ev (heap s ! p)]\<rparr>)"
proof -
  from eventHandlers_type_of_event[of ev] obtain hs where
    hs: "eventHandlers (type_of_event ev) = Some hs" by blast
  from contact_handler_existing[OF assms hs, of E] hs show ?thesis by auto
qed

lemma UpdateIndex_contact_state:
  assumes "UpdateIndex E m entries = Some (r, m')"
    and "GroupType (group m) = GroupTypeAccount \<or> distinct (map GetHash entries)"
  shows "case newest_contact_state E (group m) entries k of
            None \<Rightarrow> getContact m' (Ed25519PublicKey k) = Inl (Code ErrMissingMapKey)
          | Some st \<Rightarrow> \<exists>p. getContact m' (Ed25519PublicKey k) = Inr p \<and>
                            p < length (heap m') \<and> state (heap m' ! p) = st"
proof -
  from assms(1) obtain m1 where rp: "replay E (reset m) (rev entries) = Some m1"
    and post: "run_postIndexActions postIndexActions m1 = (r, m')"
    by (rule UpdateIndex_split)
  have "map_of (contacts (reset m)) k = None" "group (reset m) = group m"
    by (simp_all add: reset_def)
  with replay_contact_state[OF rp unskipped_reset[OF assms(2)], of k]
  have "case newest_contact_state E (group m) entries k of
          None \<Rightarrow> map_of (contacts m1) k = None
        | Some st \<Rightarrow> \<exists>p. map_of (contacts m1) k = Some p \<and> p < length (heap m1) \<and>
                          state (heap m1 ! p) = st"
    by simp
  then show ?thesis
    unfolding getContact_def run_postIndexActions_fields(3,4)[OF post]
    by (auto split: option.splits)
qed

lemma UpdateIndex_group_state:
  assumes "UpdateIndex E m entries = Some (r, m')"
    and "GroupType (group m) = GroupTypeAccount \<or> distinct (map GetHash entries)"
  shows "case newest_group_state E (group m) entries k of
            None \<Rightarrow> map_of (groups m') k = None
          | Some st \<Rightarrow> \<exists>g. map_of (groups m') k = Some g \<and> ag_state g = st"
proof -
  from assms(1) obtain m1 where rp: "replay E (reset m) (rev entries) = Some m1"
    and post: "run_postIndexActions postIndexActions m1 = (r, m')"
    by (rule UpdateIndex_split)
  have "map_of (groups (reset m)) k = None" "group (reset m) = group m"
    by (simp_all add: reset_def)
  with replay_group_state[OF rp unskipped_reset[OF assms(2)], of k]
  show ?thesis
    unfolding run_postIndexActions_fields(5)[OF post] by simp
qed

text \<open>What the replay leaves of an entry that does not decode.\<close>

lemma undecodable_logged_not_marked:
  assumes "UpdateIndex E m entries = Some (r, m')"
    and "e \<in> set entries"
    and "openMetadataEntry E (group m) e = Inl err"
    and "distinct (map GetHash entries)"
  shows "LogUnableToOpen err \<in> set (logger m') \<and>
         GetHash e \<notin> handledEvents m' \<and>
         handledEvents m' =
           GetHash ` {x \<in> set entries. \<not> isl (openMetadataEntry E (group m) x)}"
proof -
  from assms(1) obtain m1 where rp: "replay E (reset m) (rev entries) = Some m1"
    and post: "run_postIndexActions postIndexActions m1 = (r, m')"
    by (rule UpdateIndex_split)
  have g: "group (reset m) = group m" by (simp add: reset_def)
  have handled: "handledEvents m' =
      GetHash ` {x \<in> set entries. \<not> isl (openMetadataEntry E (group m) x)}"
    using replay_handledEvents[OF rp] run_postIndexActions_fields(2)[OF post] g
    by (simp add: reset_def)
  have nothandled: "GetHash e \<notin> handledEvents m'"
  proof
    assume "GetHash e \<in> handledEvents m'"
    with handled obtain x where x: "x \<in> set entries" "\<not> isl (openMetadataEntry E (group m) x)"
      "GetHash x = GetHash e" by auto
    with assms(2,4) have "x = e" by (meson distinct_map inj_onD)
    with x(2) assms(3) show False by simp
  qed
  from assms(2) obtain older newer where sp: "entries = older @ e # newer"
    by (meson split_list)
  then have rv: "rev entries = rev newer @ e # rev older" by simp
  from rp[unfolded rv replay_append] obtain m2 where
    r2: "replay E (reset m) (rev newer) = Some m2" and r3: "replay E m2 (e # rev older) = Some m1"
    by blast
  from r3 obtain m3 where lb: "loop_body E m2 e = Some m3" and r4: "replay E m3 (rev older) = Some m1"
    by (auto split: option.splits)
  have "unskipped (reset m) (rev newer @ e # rev older)"
    using unskipped_reset[of m entries] assms(4) rv by simp
  from unskipped_replay[OF this r2] have "unskipped m2 (e # rev older)" .
  from unskipped_Cons(1)[OF this lb] have pe: "process_entry E m2 e = Some m3" .
  have "group m2 = group m" using replay_group[OF r2] g by simp
  with pe assms(3) have "m3 = log_error (LogUnableToOpen err) m2"
    by (simp add: process_entry_def)
  then have "LogUnableToOpen err \<in> set (logger m3)" by (simp add: log_error_def)
  with replay_logger[OF r4] run_postIndexActions_fields(1)[OF post]
  have logged: "LogUnableToOpen err \<in> set (logger m')" by auto
  from logged nothandled handled show ?thesis by blast
qed

lemma replay_queue_from:
  assumes "replay E m es = Some m'"
  shows "\<forall>a \<in> set (eventsContactAddAliasKey m').
           a \<in> set (eventsContactAddAliasKey m) \<or> (\<exists>e \<in> set es. a \<in> set (alias_of E (group m) e))"
  using assms
proof (induction es arbitrary: m)
  case Nil
  then show ?case by simp
next
  case (Cons e es)
  from Cons.prems obtain m1 where lb: "loop_body E m e = Some m1"
    and rest: "replay E m1 es = Some m'"
    by (auto split: option.splits)
  have g: "group m1 = group m" using loop_body_group[OF lb] .
  have q1: "\<forall>a \<in> set (eventsContactAddAliasKey m1).
              a \<in> set (eventsContactAddAliasKey m) \<or> a \<in> set (alias_of E (group m) e)"
  proof (cases "GroupType (group m) \<noteq> GroupTypeAccount \<and> GetHash e \<in> handledEvents m")
    case True
    with lb show ?thesis by (simp add: loop_body_def)
  next
    case False
    with lb have "process_entry E m e = Some m1" by (auto simp: loop_body_def)
    from process_entry_queue[OF this] show ?thesis by auto
  qed
  from Cons.IH[OF rest] q1 g show ?case by auto
qed

lemma postHandlerSentAliases_loop_flag:
  assumes "postHandlerSentAliases_loop q m = (r, m')"
  shows "(ownAliasKeySent m' \<longrightarrow> ownAliasKeySent m \<or> (\<exists>a \<in> set q. own_sender m a)) \<and>
         set (eventsContactAddAliasKey m') \<subseteq> set (eventsContactAddAliasKey m)"
  using assms
proof (induction q m rule: postHandlerSentAliases_loop.induct)
  case (1 m)
  then show ?case by auto
next
  case (2 DevicePK AliasPK evts m)
  show ?case
  proof (cases "unsafeGetMemberByDevice m DevicePK")
    case (Inl e)
    with 2(3) show ?thesis by auto
  next
    case (Inr pk)
    show ?thesis
    proof (cases "pk = Member (ownMemberDevice m)")
      case True
      with Inr 2(3) have l: "postHandlerSentAliases_loop evts (m\<lparr>ownAliasKeySent := True\<rparr>) = (r, m')"
        by simp
      have own: "own_sender m (DevicePK, AliasPK)" using Inr True by (simp add: own_sender_def)
      from 2(1)[OF Inr True l] own show ?thesis by auto
    next
      case False
      show ?thesis
      proof (cases "length AliasPK \<noteq> KeySize")
        case True
        with Inr False 2(3) show ?thesis by auto
      next
        case n: False
        with Inr False 2(3)
        have l: "postHandlerSentAliases_loop evts (m\<lparr>otherAliasKey := Some AliasPK\<rparr>) = (r, m')"
          by simp
        from 2(2)[OF Inr False n l] show ?thesis by auto
      qed
    qed
  qed
qed

text \<open>The post action drains a queue without an error exactly when every sender
  resolves in the device registry and every alias key of a foreign member has the key
  size.\<close>

lemma postHandlerSentAliases_loop_succeeds:
  "(\<exists>m'. postHandlerSentAliases_loop q m = (None, m')) \<longleftrightarrow>
     (\<forall>a \<in> set q. (\<exists>pk. unsafeGetMemberByDevice m (fst a) = Inr pk) \<and>
                   (\<not> own_sender m a \<longrightarrow> length (snd a) = KeySize))"
proof (induction q m rule: postHandlerSentAliases_loop.induct)
  case (1 m)
  then show ?case by simp
next
  case (2 DevicePK AliasPK evts m)
  show ?case
  proof (cases "unsafeGetMemberByDevice m DevicePK")
    case (Inl e)
    then show ?thesis by auto
  next
    case (Inr pk)
    show ?thesis
    proof (cases "pk = Member (ownMemberDevice m)")
      case True
      have own: "own_sender m (DevicePK, AliasPK)" using Inr True by (simp add: own_sender_def)
      from 2(1)[OF Inr True] Inr True own show ?thesis by simp
    next
      case False
      have own: "\<not> own_sender m (DevicePK, AliasPK)" using Inr False by (simp add: own_sender_def)
      show ?thesis
      proof (cases "length AliasPK \<noteq> KeySize")
        case True
        with Inr False own show ?thesis by auto
      next
        case n: False
        from 2(2)[OF Inr False n] Inr False own n show ?thesis by simp
      qed
    qed
  qed
qed

lemma own_sender_kept:
  assumes "kept m m'" "ownMemberDevice m' = ownMemberDevice m" "own_sender m a"
  shows "own_sender m' a"
proof -
  from assms(3) obtain d where "length (fst a) = KeySize" "map_of (devices m) (fst a) = Some d"
    "Member d = Member (ownMemberDevice m)"
    by (auto simp: own_sender_def unsafeGetMemberByDevice_def split: if_splits option.splits)
  moreover from this(2) assms(1) have "map_of (devices m') (fst a) = Some d"
    by (simp add: kept_def)
  ultimately show ?thesis using assms(2)
    by (simp add: own_sender_def unsafeGetMemberByDevice_def)
qed

lemma UpdateIndex_kept:
  assumes "UpdateIndex E m entries = Some (r, m')"
  shows "kept m m'" "group m' = group m" "ownMemberDevice m' = ownMemberDevice m"
proof -
  from assms obtain m1 where r1: "replay E (reset m) (rev entries) = Some m1"
    and p1: "run_postIndexActions postIndexActions m1 = (r, m')"
    by (rule UpdateIndex_split)
  from replay_kept[OF r1] have "kept m m1" by (simp add: kept_def reset_def)
  with run_postIndexActions_frame[OF p1] show "kept m m'" by (auto simp: kept_def)
  from replay_group[OF r1] run_postIndexActions_fields(15)[OF p1]
  show "group m' = group m" by (simp add: reset_def)
  from effect_ownMemberDevice_replay[OF r1] run_postIndexActions_fields(16)[OF p1]
  show "ownMemberDevice m' = ownMemberDevice m" by (simp add: reset_def)
qed

text \<open>On a reached index the flag \<open>ownAliasKeySent\<close> is set only if the log of the last
  call holds an alias-key event sent by a device of the own member, and the queue holds
  only alias-key events of that log.\<close>

lemma reach_alias_flag:
  assumes "reach E m L"
  shows "(ownAliasKeySent m \<longrightarrow>
            (\<exists>e \<in> set L. \<exists>a \<in> set (alias_of E (group m) e). own_sender m a)) \<and>
         (\<forall>a \<in> set (eventsContactAddAliasKey m).
            \<exists>e \<in> set L. a \<in> set (alias_of E (group m) e))"
  using assms
proof (induction rule: reach.induct)
  case (reach_new g md h)
  then show ?case by (simp add: newMetadataIndex_def)
next
  case (reach_store m L h)
  have "own_sender (m\<lparr>heap := h\<rparr>) = own_sender m"
    by (simp add: own_sender_def unsafeGetMemberByDevice_def fun_eq_iff)
  with reach_store.IH show ?case by simp
next
  case (reach_call m L ext r m')
  note u = reach_call(2)
  note k = UpdateIndex_kept[OF u]
  from u obtain m1 where r1: "replay E (reset m) (rev (L @ ext)) = Some m1"
    and p1: "run_postIndexActions postIndexActions m1 = (r, m')"
    by (rule UpdateIndex_split)
  have g1: "group m1 = group m" using replay_group[OF r1] by (simp add: reset_def)
  from p1 obtain r0 where
    loop: "postHandlerSentAliases_loop (eventsContactAddAliasKey m1) m1 = (r0, m')"
    by (auto simp: postIndexActions_def postHandlerSentAliases_def split: prod.splits option.splits)
  note fl = postHandlerSentAliases_loop_flag[OF loop]
  from run_postIndexActions_frame[OF p1] obtain a b c where
    m': "m' = m1\<lparr>eventsContactAddAliasKey := a, ownAliasKeySent := b, otherAliasKey := c\<rparr>"
    by blast
  have same: "own_sender m' = own_sender m1" unfolding m' by (simp add: fun_eq_iff)
  have q1: "\<forall>a \<in> set (eventsContactAddAliasKey m1).
              \<exists>e \<in> set (L @ ext). a \<in> set (alias_of E (group m) e)"
  proof
    fix a assume "a \<in> set (eventsContactAddAliasKey m1)"
    with replay_queue_from[OF r1]
    have "a \<in> set (eventsContactAddAliasKey m) \<or>
          (\<exists>e \<in> set (L @ ext). a \<in> set (alias_of E (group m) e))"
      by (auto simp: reset_def)
    with reach_call.IH show "\<exists>e \<in> set (L @ ext). a \<in> set (alias_of E (group m) e)"
      by auto
  qed
  have flag1: "ownAliasKeySent m1 = ownAliasKeySent m"
    using replay_alias_flags[OF r1] by (simp add: reset_def)
  have "ownAliasKeySent m' \<longrightarrow>
          (\<exists>e \<in> set (L @ ext). \<exists>a \<in> set (alias_of E (group m) e). own_sender m' a)"
  proof
    assume "ownAliasKeySent m'"
    with fl flag1 consider (old) "ownAliasKeySent m"
      | (new) a where "a \<in> set (eventsContactAddAliasKey m1)" "own_sender m1 a"
      by blast
    then show "\<exists>e \<in> set (L @ ext). \<exists>a \<in> set (alias_of E (group m) e). own_sender m' a"
    proof cases
      case old
      with reach_call.IH obtain e a where e: "e \<in> set L"
        and a: "a \<in> set (alias_of E (group m) e)" and own: "own_sender m a" by blast
      from own_sender_kept[OF k(1,3) own] e a show ?thesis by auto
    next
      case new
      from q1 new(1) obtain e where "e \<in> set (L @ ext)" "a \<in> set (alias_of E (group m) e)"
        by blast
      with new(2) same show ?thesis by auto
    qed
  qed
  moreover have "\<forall>a \<in> set (eventsContactAddAliasKey m').
            \<exists>e \<in> set (L @ ext). a \<in> set (alias_of E (group m) e)"
    using fl q1 by blast
  ultimately show ?case unfolding k(2) by blast
qed

text \<open>The alias keys after a successful call, for any index (the name of the flag says
  that the key was sent, and nothing resets it).\<close>

lemma post_action_alias_keys:
  assumes "UpdateIndex E m entries = Some (None, m')"
    and "GroupType (group m) = GroupTypeAccount \<or> distinct (map GetHash entries)"
  shows "eventsContactAddAliasKey m' = [] \<and>
         (ownAliasKeySent m' \<longleftrightarrow>
            ownAliasKeySent m \<or> (\<exists>a \<in> set (staged_aliases E m entries). own_sender m' a)) \<and>
         otherAliasKey m' =
           (case last_foreign_alias m' (staged_aliases E m entries) of
              None \<Rightarrow> otherAliasKey m
            | Some k \<Rightarrow> Some k) \<and>
         (\<forall>a \<in> set (staged_aliases E m entries).
            \<exists>pk. unsafeGetMemberByDevice m' (fst a) = Inr pk) \<and>
         (\<forall>a \<in> set (staged_aliases E m entries).
            \<not> own_sender m' a \<longrightarrow> length (snd a) = KeySize)"
proof -
  from assms(1) obtain m1 where rp: "replay E (reset m) (rev entries) = Some m1"
    and post: "run_postIndexActions postIndexActions m1 = (None, m')"
    by (rule UpdateIndex_split)
  from post have loop: "postHandlerSentAliases_loop (eventsContactAddAliasKey m1) m1 = (None, m')"
    by (auto simp: postIndexActions_def postHandlerSentAliases_def split: prod.splits option.splits)
  have q: "eventsContactAddAliasKey m1 = staged_aliases E m entries"
    using replay_queue[OF rp unskipped_reset[OF assms(2)]]
    by (simp add: staged_aliases_def reset_def)
  have fl: "ownAliasKeySent m1 = ownAliasKeySent m" "otherAliasKey m1 = otherAliasKey m"
    using replay_alias_flags[OF rp] by (simp_all add: reset_def)
  from run_postIndexActions_frame[OF post] obtain a b c where
    m': "m' = m1\<lparr>eventsContactAddAliasKey := a, ownAliasKeySent := b, otherAliasKey := c\<rparr>"
    by blast
  have same: "own_sender m' = own_sender m1" "last_foreign_alias m' = last_foreign_alias m1"
    "unsafeGetMemberByDevice m' = unsafeGetMemberByDevice m1"
    unfolding m' by (simp_all add: fun_eq_iff)
  from postHandlerSentAliases_loop_ok[OF loop] show ?thesis
    unfolding q fl same by blast
qed

text \<open>When no handler panics, \<open>UpdateIndex\<close> returns, and it returns without an error
  exactly when the post action can drain the staged queue.\<close>

lemma UpdateIndex_succeeds_iff:
  assumes "GroupType (group m) = GroupTypeAccount \<or> distinct (map GetHash entries)"
    and "\<forall>e \<in> set entries. \<not> entry_panics E (group m) e"
  shows "\<exists>r m'. UpdateIndex E m entries = Some (r, m') \<and>
           (r = None \<longleftrightarrow>
              (\<forall>a \<in> set (staged_aliases E m entries).
                 (\<exists>pk. unsafeGetMemberByDevice m' (fst a) = Inr pk) \<and>
                 (\<not> own_sender m' a \<longrightarrow> length (snd a) = KeySize)))"
proof -
  from UpdateIndex_returns[OF assms(2)] obtain r m' where
    u: "UpdateIndex E m entries = Some (r, m')" by blast
  then obtain m1 where rp: "replay E (reset m) (rev entries) = Some m1"
    and post: "run_postIndexActions postIndexActions m1 = (r, m')"
    by (rule UpdateIndex_split)
  have q: "eventsContactAddAliasKey m1 = staged_aliases E m entries"
    using replay_queue[OF rp unskipped_reset[OF assms(1)]]
    by (simp add: staged_aliases_def reset_def)
  from run_postIndexActions_frame[OF post] obtain a b c where
    m': "m' = m1\<lparr>eventsContactAddAliasKey := a, ownAliasKeySent := b, otherAliasKey := c\<rparr>"
    by blast
  have same: "own_sender m' = own_sender m1"
    "unsafeGetMemberByDevice m' = unsafeGetMemberByDevice m1"
    unfolding m' by (simp_all add: fun_eq_iff)
  have "r = None \<longleftrightarrow> (\<exists>s'. postHandlerSentAliases_loop (eventsContactAddAliasKey m1) m1 = (None, s'))"
    using post
    by (auto simp: postIndexActions_def postHandlerSentAliases_def split: prod.splits option.splits)
  with postHandlerSentAliases_loop_succeeds[of "eventsContactAddAliasKey m1" m1]
  have "r = None \<longleftrightarrow>
          (\<forall>a \<in> set (staged_aliases E m entries).
             (\<exists>pk. unsafeGetMemberByDevice m' (fst a) = Inr pk) \<and>
             (\<not> own_sender m' a \<longrightarrow> length (snd a) = KeySize))"
    unfolding q same by simp
  with u show ?thesis by blast
qed

section \<open>The claims\<close>

subsection \<open>C4: what a replay resets and what it keeps\<close>

text \<open>
  C4. Every \<open>UpdateIndex\<close> call resets the per-replay structures (contacts,
  contactsFromGroupPK, groups, serviceTokens, contactRequestMetadata,
  contactRequestEnabled, contactRequestSeed, verifiedCredentials, handledEvents) before
  folding: the call does not depend on what they held, and on the empty log they are all
  empty afterwards. The members, devices, admins and sentSecrets maps are never cleared:
  every entry present in them before the call is still present after it.
\<close>

theorem UpdateIndex_resets_and_keeps:
  "UpdateIndex E (m\<lparr>contacts := c, contactsFromGroupPK := cg, groups := g, serviceTokens := st,
       contactRequestMetadata := crm, contactRequestEnabled := en, contactRequestSeed := sd,
       verifiedCredentials := vc, handledEvents := he\<rparr>) entries = UpdateIndex E m entries \<and>
   (\<exists>r0 m0. UpdateIndex E m [] = Some (r0, m0) \<and>
      contacts m0 = [] \<and> contactsFromGroupPK m0 = [] \<and> groups m0 = [] \<and>
      serviceTokens m0 = [] \<and> contactRequestMetadata m0 = [] \<and>
      contactRequestEnabled m0 = None \<and> contactRequestSeed m0 = None \<and>
      verifiedCredentials m0 = [] \<and> handledEvents m0 = {}) \<and>
   (UpdateIndex E m entries = Some (r, m') \<longrightarrow> kept m m')"
proof (intro conjI)
  show "UpdateIndex E (m\<lparr>contacts := c, contactsFromGroupPK := cg, groups := g, serviceTokens := st,
       contactRequestMetadata := crm, contactRequestEnabled := en, contactRequestSeed := sd,
       verifiedCredentials := vc, handledEvents := he\<rparr>) entries = UpdateIndex E m entries"
    by (simp add: UpdateIndex_def reset_def)
  show "\<exists>r0 m0. UpdateIndex E m [] = Some (r0, m0) \<and>
      contacts m0 = [] \<and> contactsFromGroupPK m0 = [] \<and> groups m0 = [] \<and>
      serviceTokens m0 = [] \<and> contactRequestMetadata m0 = [] \<and>
      contactRequestEnabled m0 = None \<and> contactRequestSeed m0 = None \<and>
      verifiedCredentials m0 = [] \<and> handledEvents m0 = {}"
  proof -
    obtain r0 m0 where p: "run_postIndexActions postIndexActions (reset m) = (r0, m0)"
      by (cases "run_postIndexActions postIndexActions (reset m)")
    then have u: "UpdateIndex E m [] = Some (r0, m0)" by (simp add: UpdateIndex_def)
    from run_postIndexActions_frame[OF p] obtain a b c where
      "m0 = (reset m)\<lparr>eventsContactAddAliasKey := a, ownAliasKeySent := b, otherAliasKey := c\<rparr>"
      by blast
    then have "contacts m0 = [] \<and> contactsFromGroupPK m0 = [] \<and> groups m0 = [] \<and>
      serviceTokens m0 = [] \<and> contactRequestMetadata m0 = [] \<and>
      contactRequestEnabled m0 = None \<and> contactRequestSeed m0 = None \<and>
      verifiedCredentials m0 = [] \<and> handledEvents m0 = {}"
      by (simp add: reset_def)
    with u show ?thesis by blast
  qed
  show "UpdateIndex E m entries = Some (r, m') \<longrightarrow> kept m m'"
  proof
    assume u: "UpdateIndex E m entries = Some (r, m')"
    then obtain m1 where r1: "replay E (reset m) (rev entries) = Some m1"
      and p1: "run_postIndexActions postIndexActions m1 = (r, m')"
      by (auto simp: UpdateIndex_def split: option.splits)
    from replay_kept[OF r1] have "kept m m1" by (simp add: kept_def reset_def)
    with run_postIndexActions_frame[OF p1] show "kept m m'" by (auto simp: kept_def)
  qed
qed

text \<open>An index that already knows a device, an admin and a sent secret, replayed over a
  log with one more device and one entry that does not decode.\<close>

theorem UpdateIndex_resets_and_keeps_witness:
  "UpdateIndex
     (ex_env [(''h1'', Inr (EventTypeGroupMemberDeviceAdded,
                            GroupMemberDeviceAdded (ex_key 3) (ex_key 4)))])
     ((ex_index GroupTypeAccount)
        \<lparr>devices := [(ex_key 2, \<lparr>Member = Ed25519PublicKey (ex_key 1),
                                  Device = Ed25519PublicKey (ex_key 2)\<rparr>)],
         members := [(ex_key 1, [\<lparr>Member = Ed25519PublicKey (ex_key 1),
                                   Device = Ed25519PublicKey (ex_key 2)\<rparr>])],
         admins := [(0, Ed25519PublicKey (ex_key 1))],
         sentSecrets := {ex_key 5}\<rparr>)
     [ex_entry ''h1'', ex_entry ''h2''] \<noteq> None \<and>
   kept
     ((ex_index GroupTypeAccount)
        \<lparr>devices := [(ex_key 2, \<lparr>Member = Ed25519PublicKey (ex_key 1),
                                  Device = Ed25519PublicKey (ex_key 2)\<rparr>)],
         members := [(ex_key 1, [\<lparr>Member = Ed25519PublicKey (ex_key 1),
                                   Device = Ed25519PublicKey (ex_key 2)\<rparr>])],
         admins := [(0, Ed25519PublicKey (ex_key 1))],
         sentSecrets := {ex_key 5}\<rparr>)
     (snd (the (UpdateIndex
       (ex_env [(''h1'', Inr (EventTypeGroupMemberDeviceAdded,
                              GroupMemberDeviceAdded (ex_key 3) (ex_key 4)))])
       ((ex_index GroupTypeAccount)
          \<lparr>devices := [(ex_key 2, \<lparr>Member = Ed25519PublicKey (ex_key 1),
                                    Device = Ed25519PublicKey (ex_key 2)\<rparr>)],
           members := [(ex_key 1, [\<lparr>Member = Ed25519PublicKey (ex_key 1),
                                     Device = Ed25519PublicKey (ex_key 2)\<rparr>])],
           admins := [(0, Ed25519PublicKey (ex_key 1))],
           sentSecrets := {ex_key 5}\<rparr>)
       [ex_entry ''h1'', ex_entry ''h2''])))"
  (is "?u \<noteq> None \<and> kept ?m (snd (the ?u))")
proof -
  have some: "?u \<noteq> None"
    by (simp add: eval_defs handleGroupMemberDeviceAdded_def)
  then obtain r m' where u: "?u = Some (r, m')" by auto
  with UpdateIndex_resets_and_keeps[where m = ?m and r = r and m' = m']
  have "kept ?m m'" by blast
  with some u show ?thesis by simp
qed

subsection \<open>C2: an entry that does not decode\<close>

text \<open>
  C2, as the code has it. For every log entry whose decoding fails during \<open>UpdateIndex\<close>,
  the error is logged, the entry is skipped and the replay goes on with the next entry:
  in every state of the replay the body of the loop writes one line to the logger and
  changes nothing else, or changes nothing at all when the hash is already marked in a
  group that is not an account group, and the rest of the log is replayed from that
  state. The entry's hash is not marked handled by it: \<open>UpdateIndex\<close> returns, and after
  the replay of a log with distinct hashes the hash is not in the handled-events set,
  which holds exactly the hashes of the entries that decoded. (No entry of the log
  decodes to an event on which a handler dereferences nil.)
\<close>

theorem UpdateIndex_undecodable_entry:
  assumes "e \<in> set entries"
    and "openMetadataEntry E (group m) e = Inl err"
    and "distinct (map GetHash entries)"
    and "\<forall>x \<in> set entries. \<not> entry_panics E (group m) x"
  shows "(\<exists>r m'. UpdateIndex E m entries = Some (r, m') \<and>
            LogUnableToOpen err \<in> set (logger m') \<and>
            GetHash e \<notin> handledEvents m' \<and>
            handledEvents m' =
              GetHash ` {x \<in> set entries. \<not> isl (openMetadataEntry E (group m) x)}) \<and>
         (\<forall>s. group s = group m \<and>
              (GroupType (group s) = GroupTypeAccount \<or> GetHash e \<notin> handledEvents s) \<longrightarrow>
              loop_body E s e = Some (s\<lparr>logger := logger s @ [LogUnableToOpen err]\<rparr>)) \<and>
         (\<forall>s. group s = group m \<and>
              GroupType (group s) \<noteq> GroupTypeAccount \<and> GetHash e \<in> handledEvents s \<longrightarrow>
              loop_body E s e = Some s) \<and>
         (\<forall>s rest. group s = group m \<and>
              (GroupType (group s) = GroupTypeAccount \<or> GetHash e \<notin> handledEvents s) \<longrightarrow>
              replay E s (e # rest) =
                replay E (s\<lparr>logger := logger s @ [LogUnableToOpen err]\<rparr>) rest)"
proof (intro conjI)
  from UpdateIndex_returns[OF assms(4)] obtain r m' where
    u: "UpdateIndex E m entries = Some (r, m')" by blast
  from undecodable_logged_not_marked[OF u assms(1-3)] u
  show "\<exists>r m'. UpdateIndex E m entries = Some (r, m') \<and>
            LogUnableToOpen err \<in> set (logger m') \<and>
            GetHash e \<notin> handledEvents m' \<and>
            handledEvents m' =
              GetHash ` {x \<in> set entries. \<not> isl (openMetadataEntry E (group m) x)}"
    by blast
  show body: "\<forall>s. group s = group m \<and>
              (GroupType (group s) = GroupTypeAccount \<or> GetHash e \<notin> handledEvents s) \<longrightarrow>
              loop_body E s e = Some (s\<lparr>logger := logger s @ [LogUnableToOpen err]\<rparr>)"
    using assms(2) by (auto simp: loop_body_def process_entry_def log_error_def)
  show "\<forall>s. group s = group m \<and>
              GroupType (group s) \<noteq> GroupTypeAccount \<and> GetHash e \<in> handledEvents s \<longrightarrow>
              loop_body E s e = Some s"
    by (auto simp: loop_body_def)
  show "\<forall>s rest. group s = group m \<and>
              (GroupType (group s) = GroupTypeAccount \<or> GetHash e \<notin> handledEvents s) \<longrightarrow>
              replay E s (e # rest) =
                replay E (s\<lparr>logger := logger s @ [LogUnableToOpen err]\<rparr>) rest"
  proof (intro allI impI)
    fix s :: metadataStoreIndex and rest
    assume "group s = group m \<and>
              (GroupType (group s) = GroupTypeAccount \<or> GetHash e \<notin> handledEvents s)"
    with body have "loop_body E s e = Some (s\<lparr>logger := logger s @ [LogUnableToOpen err]\<rparr>)"
      by blast
    then show "replay E s (e # rest) =
                replay E (s\<lparr>logger := logger s @ [LogUnableToOpen err]\<rparr>) rest"
      by simp
  qed
qed

text \<open>A log of one entry that does not decode between two that do, in a multi-member
  group.\<close>

theorem UpdateIndex_undecodable_entry_witness:
  "map_option (\<lambda>(r, m'). (r, handledEvents m', logger m', listDevices m'))
     (UpdateIndex
       (ex_env [(''h1'', Inr (EventTypeGroupMemberDeviceAdded,
                              GroupMemberDeviceAdded (ex_key 3) (ex_key 4))),
                (''h3'', Inr (EventTypeGroupMemberDeviceAdded,
                              GroupMemberDeviceAdded (ex_key 5) (ex_key 6)))])
       (ex_index GroupTypeMultiMember)
       [ex_entry ''h1'', ex_entry ''h2'', ex_entry ''h3'']) =
   Some (None, {''h1'', ''h3''}, [LogUnableToOpen (Errorf ''unable to open'')],
         [Ed25519PublicKey (ex_key 6), Ed25519PublicKey (ex_key 4)]) \<and>
   (\<exists>r m'. UpdateIndex
       (ex_env [(''h1'', Inr (EventTypeGroupMemberDeviceAdded,
                              GroupMemberDeviceAdded (ex_key 3) (ex_key 4))),
                (''h3'', Inr (EventTypeGroupMemberDeviceAdded,
                              GroupMemberDeviceAdded (ex_key 5) (ex_key 6)))])
       (ex_index GroupTypeMultiMember)
       [ex_entry ''h1'', ex_entry ''h2'', ex_entry ''h3''] = Some (r, m') \<and>
      LogUnableToOpen (Errorf ''unable to open'') \<in> set (logger m') \<and>
      ''h2'' \<notin> handledEvents m')"
  (is "map_option _ (UpdateIndex ?E ?m ?log) = _ \<and> _")
proof -
  have ev: "map_option (\<lambda>(r, m'). (r, handledEvents m', logger m', listDevices m'))
              (UpdateIndex ?E ?m ?log) =
            Some (None, {''h1'', ''h3''}, [LogUnableToOpen (Errorf ''unable to open'')],
                  [Ed25519PublicKey (ex_key 6), Ed25519PublicKey (ex_key 4)])"
    by (simp add: eval_defs handleGroupMemberDeviceAdded_def listDevices_def insert_commute)
  have h1: "ex_entry ''h2'' \<in> set ?log" by simp
  have h2: "openMetadataEntry ?E (group ?m) (ex_entry ''h2'') = Inl (Errorf ''unable to open'')"
    by (simp add: ex_env_def ex_entry_def)
  have h3: "distinct (map GetHash ?log)" by (simp add: ex_entry_def)
  have h4: "\<forall>x \<in> set ?log. \<not> entry_panics ?E (group ?m) x"
    by (simp add: entry_panics_def panics_def ex_env_def ex_entry_def)
  from UpdateIndex_undecodable_entry[OF h1 h2 h3 h4, THEN conjunct1]
  have "\<exists>r m'. UpdateIndex ?E ?m ?log = Some (r, m') \<and>
          LogUnableToOpen (Errorf ''unable to open'') \<in> set (logger m') \<and>
          GetHash (ex_entry ''h2'') \<notin> handledEvents m'"
    by blast
  then have "\<exists>r m'. UpdateIndex ?E ?m ?log = Some (r, m') \<and>
          LogUnableToOpen (Errorf ''unable to open'') \<in> set (logger m') \<and>
          ''h2'' \<notin> handledEvents m'"
    by (simp add: ex_entry_def)
  with ev show ?thesis by blast
qed

text \<open>C2 as stated fails: the hash of an entry that does not decode is not marked.\<close>

theorem undecodable_entry_not_marked:
  "openMetadataEntry (ex_env []) (group (ex_index GroupTypeAccount)) (ex_entry ''h2'') =
     Inl (Errorf ''unable to open'') \<and>
   UpdateIndex (ex_env []) (ex_index GroupTypeAccount) [ex_entry ''h2''] =
     Some (None, (ex_index GroupTypeAccount)
                   \<lparr>logger := [LogUnableToOpen (Errorf ''unable to open'')]\<rparr>) \<and>
   GetHash (ex_entry ''h2'') \<notin>
     handledEvents ((ex_index GroupTypeAccount)
                     \<lparr>logger := [LogUnableToOpen (Errorf ''unable to open'')]\<rparr>)"
  by (simp add: eval_defs)

subsection \<open>C8: the member and device registries\<close>

text \<open>
  C8. The member and device registries satisfy, after every sequence of events replayed
  from a new index (in particular of GroupMemberDeviceAdded events): every binding
  stored in \<open>members[mPK]\<close> has member key \<open>mPK\<close>, every device key appears in exactly
  one member's list, and the devices map holds exactly the bindings appended to the
  member lists (\<open>registry_inv\<close>). \<open>handleGroupMemberDeviceAdded\<close> leaves the index as it
  is when the device key is already registered, and fails with a deserialisation error,
  again without a change, when either key is not a valid Ed25519 public key.
\<close>

theorem member_device_registry_invariant:
  "registry_inv (newMetadataIndex g own h) \<and>
   (registry_inv m \<and> UpdateIndex E m entries = Some (r, m') \<longrightarrow> registry_inv m') \<and>
   (registry_inv m \<and> handleGroupMemberDeviceAdded E ev m = Some (r1, m1) \<longrightarrow> registry_inv m1) \<and>
   (registry_inv m \<and> map_of (members m) mpk1 = Some mds1 \<and> md1 \<in> set mds1 \<and>
      map_of (members m) mpk2 = Some mds2 \<and> md2 \<in> set mds2 \<and>
      Raw (Device md1) = Raw (Device md2) \<longrightarrow> mpk1 = mpk2 \<and> md1 = md2) \<and>
   (map_of (devices m) dpk \<noteq> None \<longrightarrow>
      (\<exists>e. handleGroupMemberDeviceAdded E (GroupMemberDeviceAdded mpk dpk) m = Some (e, m)) \<and>
      (length mpk = 32 \<and> length dpk = 32 \<longrightarrow>
         handleGroupMemberDeviceAdded E (GroupMemberDeviceAdded mpk dpk) m = Some (None, m))) \<and>
   (length mpk \<noteq> 32 \<or> length dpk \<noteq> 32 \<longrightarrow>
      (\<exists>err. handleGroupMemberDeviceAdded E (GroupMemberDeviceAdded mpk dpk) m =
               Some (Some (Wrap ErrDeserialization err), m)))"
proof (intro conjI impI)
  show "registry_inv (newMetadataIndex g own h)"
    by (simp add: registry_inv_def newMetadataIndex_def)
  show "registry_inv m'" if "registry_inv m \<and> UpdateIndex E m entries = Some (r, m')"
    using that UpdateIndex_registry_inv by blast
  show "registry_inv m1"
    if "registry_inv m \<and> handleGroupMemberDeviceAdded E ev m = Some (r1, m1)"
    using that handleGroupMemberDeviceAdded_effect effect_registry_inv by blast
  show "mpk1 = mpk2" "md1 = md2"
    if "registry_inv m \<and> map_of (members m) mpk1 = Some mds1 \<and> md1 \<in> set mds1 \<and>
      map_of (members m) mpk2 = Some mds2 \<and> md2 \<in> set mds2 \<and>
      Raw (Device md1) = Raw (Device md2)"
    using that registry_inv_one_list[of m mpk1 mds1 md1 mpk2 mds2 md2] by blast+
  show "\<exists>e. handleGroupMemberDeviceAdded E (GroupMemberDeviceAdded mpk dpk) m = Some (e, m)"
    if "map_of (devices m) dpk \<noteq> None"
    using that
    by (auto simp: handleGroupMemberDeviceAdded_def UnmarshalEd25519PublicKey_def)
  show "handleGroupMemberDeviceAdded E (GroupMemberDeviceAdded mpk dpk) m = Some (None, m)"
    if "map_of (devices m) dpk \<noteq> None" "length mpk = 32 \<and> length dpk = 32"
    using that
    by (auto simp: handleGroupMemberDeviceAdded_def UnmarshalEd25519PublicKey_def)
  show "\<exists>err. handleGroupMemberDeviceAdded E (GroupMemberDeviceAdded mpk dpk) m =
               Some (Some (Wrap ErrDeserialization err), m)"
    if "length mpk \<noteq> 32 \<or> length dpk \<noteq> 32"
    using that
    by (auto simp: handleGroupMemberDeviceAdded_def UnmarshalEd25519PublicKey_def)
qed

text \<open>Three entries on a new index: the oldest binds device 4 to member 6, the others bind
  the devices 5 and 4 to member 3.\<close>

theorem member_device_registry_invariant_witness:
  "UpdateIndex
     (ex_env [(''h1'', Inr (EventTypeGroupMemberDeviceAdded,
                            GroupMemberDeviceAdded (ex_key 6) (ex_key 4))),
              (''h2'', Inr (EventTypeGroupMemberDeviceAdded,
                            GroupMemberDeviceAdded (ex_key 3) (ex_key 5))),
              (''h3'', Inr (EventTypeGroupMemberDeviceAdded,
                            GroupMemberDeviceAdded (ex_key 3) (ex_key 4)))])
     (newMetadataIndex \<lparr>PublicKey = ex_key 0, GroupType = GroupTypeMultiMember\<rparr>
        \<lparr>Member = Ed25519PublicKey (ex_key 1), Device = Ed25519PublicKey (ex_key 2)\<rparr> [])
     [ex_entry ''h1'', ex_entry ''h2'', ex_entry ''h3''] \<noteq> None \<and>
   registry_inv (snd (the (UpdateIndex
     (ex_env [(''h1'', Inr (EventTypeGroupMemberDeviceAdded,
                            GroupMemberDeviceAdded (ex_key 6) (ex_key 4))),
              (''h2'', Inr (EventTypeGroupMemberDeviceAdded,
                            GroupMemberDeviceAdded (ex_key 3) (ex_key 5))),
              (''h3'', Inr (EventTypeGroupMemberDeviceAdded,
                            GroupMemberDeviceAdded (ex_key 3) (ex_key 4)))])
     (newMetadataIndex \<lparr>PublicKey = ex_key 0, GroupType = GroupTypeMultiMember\<rparr>
        \<lparr>Member = Ed25519PublicKey (ex_key 1), Device = Ed25519PublicKey (ex_key 2)\<rparr> [])
     [ex_entry ''h1'', ex_entry ''h2'', ex_entry ''h3''])))"
  (is "UpdateIndex ?E ?m ?log \<noteq> None \<and> _")
proof -
  have some: "UpdateIndex ?E ?m ?log \<noteq> None"
    by (simp add: eval_defs handleGroupMemberDeviceAdded_def)
  then obtain r m' where u: "UpdateIndex ?E ?m ?log = Some (r, m')" by auto
  note t = member_device_registry_invariant[where g = "\<lparr>PublicKey = ex_key 0, GroupType = GroupTypeMultiMember\<rparr>"
      and own = "\<lparr>Member = Ed25519PublicKey (ex_key 1), Device = Ed25519PublicKey (ex_key 2)\<rparr>"
      and h = "[]" and m = ?m and E = ?E and entries = ?log and r = r and m' = m']
  from t u have "registry_inv m'" by blast
  with some u show ?thesis by simp
qed

subsection \<open>C10: a contact record outlives the error of its creation\<close>

text \<open>
  C10. Contact-record creation is not atomic with respect to its error: for every
  contact-request event that creates a new record while the bound group type is not
  Account (or while the secret-store lookup fails), the handler returns an error
  (group-invalid-type in the non-Account case) but the new contact record has already
  been inserted into the contacts map and remains there, so it is visible via
  \<open>getContact\<close> and \<open>listContacts\<close> even though the reverse index by derived group PK
  was never updated.
\<close>

theorem contact_creation_not_atomic:
  assumes "induced_contact ev = Some (k, st)"
    and "map_of (contacts m) k = None"
    and "eventHandlers (type_of_event ev) = Some hs"
    and "GroupType (group m) \<noteq> GroupTypeAccount \<or>
         (length k = 32 \<and> GetGroupForContact E (Ed25519PublicKey k) = Inl e0)"
  shows "\<exists>h err m'. hs = [h] \<and> h E ev m = Some (Some err, m') \<and>
           err = (if GroupType (group m) \<noteq> GroupTypeAccount then Code ErrGroupInvalidType
                  else Wrap ErrOrbitDBOpen e0) \<and>
           getContact m' (Ed25519PublicKey k) = Inr (length (heap m)) \<and>
           length (heap m) < length (heap m') \<and>
           state (heap m' ! length (heap m)) = st \<and>
           PK (contact (heap m' ! length (heap m))) = k \<and>
           k \<in> set (map fst (fst (listContacts m'))) \<and>
           contactsFromGroupPK m' = contactsFromGroupPK m"
proof -
  from create_contact[OF assms(1-3), of E] obtain h c x where
    hs: "hs = [h]" and c: "state c = st" "PK (contact c) = k"
    and h: "h E ev m = Some (registerContactFromGroupPK E (length (heap m))
             (m\<lparr>contactRequestMetadata := x, heap := heap m @ [c],
                contacts := AList.update k (length (heap m)) (contacts m)\<rparr>))"
    by blast
  let ?m2 = "m\<lparr>contactRequestMetadata := x, heap := heap m @ [c],
                contacts := AList.update k (length (heap m)) (contacts m)\<rparr>"
  let ?err = "if GroupType (group m) \<noteq> GroupTypeAccount then Code ErrGroupInvalidType
                  else Wrap ErrOrbitDBOpen e0"
  have reg: "registerContactFromGroupPK E (length (heap m)) ?m2 = (Some ?err, ?m2)"
    using assms(4) c(2)
    by (auto simp: registerContactFromGroupPK_def UnmarshalEd25519PublicKey_def)
  have "getContact ?m2 (Ed25519PublicKey k) = Inr (length (heap m))"
    by (simp add: getContact_def update_conv')
  moreover have "k \<in> set (map fst (fst (listContacts ?m2)))"
    by (simp add: listContacts_keys dom_update)
  ultimately show ?thesis using hs h reg c by simp
qed

text \<open>An outgoing request sent, replayed in a multi-member group.\<close>

theorem contact_creation_not_atomic_witness:
  "handleContactRequestOutgoingSent (ex_env [])
       (AccountContactRequestOutgoingSent (ex_key 7)) (ex_index GroupTypeMultiMember) =
     Some (Some (Code ErrGroupInvalidType),
           (ex_index GroupTypeMultiMember)
             \<lparr>heap := [\<lparr>state = ContactStateAdded,
                         contact = \<lparr>PK = ex_key 7, PublicRendezvousSeed = None,
                                    Metadata = None\<rparr>\<rparr>],
              contacts := [(ex_key 7, 0)]\<rparr>) \<and>
   getContact (snd (the (handleContactRequestOutgoingSent (ex_env [])
       (AccountContactRequestOutgoingSent (ex_key 7)) (ex_index GroupTypeMultiMember))))
     (Ed25519PublicKey (ex_key 7)) = Inr 0"
proof -
  have a: "induced_contact (AccountContactRequestOutgoingSent (ex_key 7)) =
      Some (ex_key 7, ContactStateAdded)" by simp
  have b: "map_of (contacts (ex_index GroupTypeMultiMember)) (ex_key 7) = None"
    by (simp add: ex_index_def newMetadataIndex_def)
  have c: "eventHandlers (type_of_event (AccountContactRequestOutgoingSent (ex_key 7))) =
      Some [handleContactRequestOutgoingSent]" by simp
  have d: "GroupType (group (ex_index GroupTypeMultiMember)) \<noteq> GroupTypeAccount \<or>
         (length (ex_key 7) = 32 \<and>
          GetGroupForContact (ex_env []) (Ed25519PublicKey (ex_key 7)) = Inl (Errorf ''none''))"
    by (simp add: ex_index_def newMetadataIndex_def)
  from contact_creation_not_atomic[OF a b c d]
  obtain err m' where
    "handleContactRequestOutgoingSent (ex_env [])
       (AccountContactRequestOutgoingSent (ex_key 7)) (ex_index GroupTypeMultiMember) =
     Some (Some err, m')"
    "getContact m' (Ed25519PublicKey (ex_key 7)) =
       Inr (length (heap (ex_index GroupTypeMultiMember)))" by blast
  moreover have "handleContactRequestOutgoingSent (ex_env [])
       (AccountContactRequestOutgoingSent (ex_key 7)) (ex_index GroupTypeMultiMember) =
     Some (Some (Code ErrGroupInvalidType),
           (ex_index GroupTypeMultiMember)
             \<lparr>heap := [\<lparr>state = ContactStateAdded,
                         contact = \<lparr>PK = ex_key 7, PublicRendezvousSeed = None,
                                    Metadata = None\<rparr>\<rparr>],
              contacts := [(ex_key 7, 0)]\<rparr>)"
    by (simp add: handleContactRequestOutgoingSent_def eval_defs)
  ultimately show ?thesis by (simp add: ex_index_def newMetadataIndex_def)
qed

subsection \<open>C1: the state of a contact is that of the newest event\<close>

text \<open>
  C1. For every log and every contactPK, after \<open>UpdateIndex\<close> the contact record's
  \<open>state\<close> equals the state induced by the newest event in log order pertaining to that
  contactPK, and there is no record when no event pertains to it: \<open>UpdateIndex\<close> returns,
  and the index it leaves has this property. The replay is newest-first, and the handler
  of each of the eight contact events does as follows. When no record exists for the
  contactPK, each of the seven request and block events creates one in the state the
  event induces, with the seed and the metadata of the event. When a record exists, the
  handler returns without an error and leaves the record as it was, but for a seed or a
  metadata field that was absent and is filled from the event; the \<open>state\<close> is not
  changed. The alias-key event only joins the queue of the post action. No handler of
  the table changes the \<open>state\<close> of an existing record or the record a key points to.
  (The log has distinct hashes or the group is an account group, so that no entry is
  skipped as handled, and no entry decodes to an event on which a handler dereferences
  nil.)
\<close>

theorem contact_state_is_newest:
  assumes "GroupType (group m) = GroupTypeAccount \<or> distinct (map GetHash entries)"
    and "\<forall>e \<in> set entries. \<not> entry_panics E (group m) e"
  shows "(\<exists>r m'. UpdateIndex E m entries = Some (r, m') \<and>
            (\<forall>k. case newest_contact_state E (group m) entries k of
                    None \<Rightarrow> getContact m' (Ed25519PublicKey k) = Inl (Code ErrMissingMapKey)
                  | Some st \<Rightarrow> \<exists>p. getContact m' (Ed25519PublicKey k) = Inr p \<and>
                                    p < length (heap m') \<and> state (heap m' ! p) = st)) \<and>
         (\<forall>ev k st s. induced_contact ev = Some (k, st) \<and> map_of (contacts s) k = None \<longrightarrow>
            (\<exists>h err s'. eventHandlers (type_of_event ev) = Some [h] \<and>
               h E ev s = Some (err, s') \<and>
               map_of (contacts s') k = Some (length (heap s)) \<and>
               heap s' = heap s @ [\<lparr>state = st,
                                     contact = \<lparr>PK = k, PublicRendezvousSeed = event_seed ev,
                                                Metadata = event_metadata ev\<rparr>\<rparr>])) \<and>
         (\<forall>ev k st s p. induced_contact ev = Some (k, st) \<and> map_of (contacts s) k = Some p \<longrightarrow>
            (\<exists>h. eventHandlers (type_of_event ev) = Some [h] \<and>
               h E ev s = Some (None, s\<lparr>heap := (heap s)[p := filled ev (heap s ! p)]\<rparr>))) \<and>
         (\<forall>ev c. state (filled ev c) = state c \<and> PK (contact (filled ev c)) = PK (contact c) \<and>
            Metadata (contact (filled ev c)) =
              (if Metadata (contact c) = None then event_metadata ev else Metadata (contact c)) \<and>
            PublicRendezvousSeed (contact (filled ev c)) =
              (if PublicRendezvousSeed (contact c) = None then event_seed ev
               else PublicRendezvousSeed (contact c))) \<and>
         (\<forall>DevicePK AliasPK s.
            handleContactAliasKeyAdded E (ContactAliasKeyAdded DevicePK AliasPK) s =
              Some (None, s\<lparr>eventsContactAddAliasKey :=
                              eventsContactAddAliasKey s @ [(DevicePK, AliasPK)]\<rparr>)) \<and>
         (\<forall>ty hs h ev s e' s' k' p.
            eventHandlers ty = Some hs \<and> h \<in> set hs \<and> h E ev s = Some (e', s') \<and>
            map_of (contacts s) k' = Some p \<and> p < length (heap s) \<longrightarrow>
            map_of (contacts s') k' = Some p \<and> state (heap s' ! p) = state (heap s ! p))"
proof (intro conjI)
  from UpdateIndex_returns[OF assms(2)] obtain r m' where
    u: "UpdateIndex E m entries = Some (r, m')" by blast
  from UpdateIndex_contact_state[OF u assms(1)] u
  show "\<exists>r m'. UpdateIndex E m entries = Some (r, m') \<and>
            (\<forall>k. case newest_contact_state E (group m) entries k of
                    None \<Rightarrow> getContact m' (Ed25519PublicKey k) = Inl (Code ErrMissingMapKey)
                  | Some st \<Rightarrow> \<exists>p. getContact m' (Ed25519PublicKey k) = Inr p \<and>
                                    p < length (heap m') \<and> state (heap m' ! p) = st)"
    by blast
  show "\<forall>ev k st s. induced_contact ev = Some (k, st) \<and> map_of (contacts s) k = None \<longrightarrow>
            (\<exists>h err s'. eventHandlers (type_of_event ev) = Some [h] \<and>
               h E ev s = Some (err, s') \<and>
               map_of (contacts s') k = Some (length (heap s)) \<and>
               heap s' = heap s @ [\<lparr>state = st,
                                     contact = \<lparr>PK = k, PublicRendezvousSeed = event_seed ev,
                                                Metadata = event_metadata ev\<rparr>\<rparr>])"
    using contact_handler_creates by blast
  show "\<forall>ev k st s p. induced_contact ev = Some (k, st) \<and> map_of (contacts s) k = Some p \<longrightarrow>
            (\<exists>h. eventHandlers (type_of_event ev) = Some [h] \<and>
               h E ev s = Some (None, s\<lparr>heap := (heap s)[p := filled ev (heap s ! p)]\<rparr>))"
    using contact_handler_fills by blast
  show "\<forall>ev c. state (filled ev c) = state c \<and> PK (contact (filled ev c)) = PK (contact c) \<and>
            Metadata (contact (filled ev c)) =
              (if Metadata (contact c) = None then event_metadata ev else Metadata (contact c)) \<and>
            PublicRendezvousSeed (contact (filled ev c)) =
              (if PublicRendezvousSeed (contact c) = None then event_seed ev
               else PublicRendezvousSeed (contact c))"
    using filled_fields by blast
  show "\<forall>DevicePK AliasPK s.
            handleContactAliasKeyAdded E (ContactAliasKeyAdded DevicePK AliasPK) s =
              Some (None, s\<lparr>eventsContactAddAliasKey :=
                              eventsContactAddAliasKey s @ [(DevicePK, AliasPK)]\<rparr>)"
    by (simp add: handleContactAliasKeyAdded_def)
  show "\<forall>ty hs h ev s e' s' k' p.
            eventHandlers ty = Some hs \<and> h \<in> set hs \<and> h E ev s = Some (e', s') \<and>
            map_of (contacts s) k' = Some p \<and> p < length (heap s) \<longrightarrow>
            map_of (contacts s') k' = Some p \<and> state (heap s' ! p) = state (heap s ! p)"
    using handlers_effect effect_contact_kept by blast
qed


text \<open>All seven creating events in an account group: contact 7 is Added (the request was
  sent after it was enqueued, and the older event fills seed and metadata), contact 8 is
  Blocked (the block is newer than the request received, which fills), no event pertains
  to contact 13.\<close>

theorem contact_state_is_newest_witness:
  "map_option (\<lambda>(r, m'). (r, contact_values m'))
     (UpdateIndex ex_contacts_env (ex_index GroupTypeAccount) ex_contacts_log) =
   Some (None,
     [(ex_key 8, \<lparr>state = ContactStateBlocked,
                   contact = \<lparr>PK = ex_key 8, PublicRendezvousSeed = Some [3],
                              Metadata = Some [4]\<rparr>\<rparr>),
      (ex_key 12, \<lparr>state = ContactStateRemoved,
                   contact = \<lparr>PK = ex_key 12, PublicRendezvousSeed = None, Metadata = None\<rparr>\<rparr>),
      (ex_key 11, \<lparr>state = ContactStateBlocked,
                   contact = \<lparr>PK = ex_key 11, PublicRendezvousSeed = None, Metadata = None\<rparr>\<rparr>),
      (ex_key 10, \<lparr>state = ContactStateAdded,
                   contact = \<lparr>PK = ex_key 10, PublicRendezvousSeed = None, Metadata = None\<rparr>\<rparr>),
      (ex_key 9, \<lparr>state = ContactStateDiscarded,
                   contact = \<lparr>PK = ex_key 9, PublicRendezvousSeed = None, Metadata = None\<rparr>\<rparr>),
      (ex_key 7, \<lparr>state = ContactStateAdded,
                   contact = \<lparr>PK = ex_key 7, PublicRendezvousSeed = Some [1],
                              Metadata = Some [2]\<rparr>\<rparr>)]) \<and>
   map (newest_contact_state ex_contacts_env (group (ex_index GroupTypeAccount)) ex_contacts_log)
     [ex_key 7, ex_key 8, ex_key 9, ex_key 10, ex_key 11, ex_key 12, ex_key 13] =
   [Some ContactStateAdded, Some ContactStateBlocked, Some ContactStateDiscarded,
    Some ContactStateAdded, Some ContactStateBlocked, Some ContactStateRemoved, None] \<and>
   (\<exists>r m'. UpdateIndex ex_contacts_env (ex_index GroupTypeAccount) ex_contacts_log = Some (r, m') \<and>
      (\<exists>p. getContact m' (Ed25519PublicKey (ex_key 8)) = Inr p \<and>
           state (heap m' ! p) = ContactStateBlocked) \<and>
      getContact m' (Ed25519PublicKey (ex_key 13)) = Inl (Code ErrMissingMapKey))"
  (is "?eval \<and> ?newest \<and> ?after")
proof -
  have ev: ?eval
    by (simp add: ex_contacts_env_def ex_contacts_log_def eval_defs contact_values_def
        handleContactRequestOutgoingEnqueued_def handleContactRequestOutgoingSent_def
        handleContactRequestIncomingReceived_def handleContactRequestIncomingDiscarded_def
        handleContactRequestIncomingAccepted_def handleContactBlocked_def
        handleContactUnblocked_def)
  have n: ?newest
    by (simp add: ex_contacts_env_def ex_contacts_log_def contact_event_def ex_env_def
        ex_entry_def)
  have d: "GroupType (group (ex_index GroupTypeAccount)) = GroupTypeAccount \<or>
           distinct (map GetHash ex_contacts_log)"
    by (simp add: ex_index_def newMetadataIndex_def)
  have s: "\<forall>e \<in> set ex_contacts_log.
             \<not> entry_panics ex_contacts_env (group (ex_index GroupTypeAccount)) e"
    by (simp add: ex_contacts_env_def ex_contacts_log_def entry_panics_def panics_def
        ex_env_def ex_entry_def)
  from contact_state_is_newest[OF d s, THEN conjunct1] obtain r m' where
    u: "UpdateIndex ex_contacts_env (ex_index GroupTypeAccount) ex_contacts_log = Some (r, m')"
    and k: "\<And>k. case newest_contact_state ex_contacts_env (group (ex_index GroupTypeAccount))
                     ex_contacts_log k of
              None \<Rightarrow> getContact m' (Ed25519PublicKey k) = Inl (Code ErrMissingMapKey)
            | Some st \<Rightarrow> \<exists>p. getContact m' (Ed25519PublicKey k) = Inr p \<and>
                              p < length (heap m') \<and> state (heap m' ! p) = st"
    by blast
  from k[of "ex_key 8"] k[of "ex_key 13"] n
  have "(\<exists>p. getContact m' (Ed25519PublicKey (ex_key 8)) = Inr p \<and>
           state (heap m' ! p) = ContactStateBlocked) \<and>
        getContact m' (Ed25519PublicKey (ex_key 13)) = Inl (Code ErrMissingMapKey)"
    by auto
  with u have ?after by blast
  with ev n show ?thesis by blast
qed

subsection \<open>C6: the state of a group is that of the newest join or leave\<close>

text \<open>
  C6. For every log and every groupPK, after \<open>UpdateIndex\<close> the roster entry
  \<open>groups[groupPK].state\<close> equals the state induced (Joined or Left) by the newest
  AccountGroupJoined/AccountGroupLeft event for that groupPK in log order, and there is
  no entry when the log has no such event: \<open>UpdateIndex\<close> returns, and the index it
  leaves has this property. Both handlers store a record when the key is absent (the
  join with the state Joined and the group of the event, the leave with the state Left
  and no group), both ignore the event when a record for the key already exists, and the
  replay is newest-first. (The log has distinct hashes or the group is an account group,
  so that no entry is skipped as handled, and no entry decodes to an event on which a
  handler dereferences nil, such as a join without its group.)
\<close>

theorem group_state_is_newest:
  assumes "GroupType (group m) = GroupTypeAccount \<or> distinct (map GetHash entries)"
    and "\<forall>e \<in> set entries. \<not> entry_panics E (group m) e"
  shows "(\<exists>r m'. UpdateIndex E m entries = Some (r, m') \<and>
            (\<forall>k. case newest_group_state E (group m) entries k of
                    None \<Rightarrow> map_of (groups m') k = None
                  | Some st \<Rightarrow> \<exists>g. map_of (groups m') k = Some g \<and> ag_state g = st)) \<and>
         (\<forall>s g. map_of (groups s) (PublicKey g) = None \<longrightarrow>
            handleGroupJoined E (AccountGroupJoined (Some g)) s =
              Some (None, s\<lparr>groups := groups s @
                [(PublicKey g, \<lparr>ag_state = accountGroupJoinedStateJoined, ag_group = Some g\<rparr>)]\<rparr>)) \<and>
         (\<forall>s k. map_of (groups s) k = None \<longrightarrow>
            handleGroupLeft E (AccountGroupLeft k) s =
              Some (None, s\<lparr>groups := groups s @
                [(k, \<lparr>ag_state = accountGroupJoinedStateLeft, ag_group = None\<rparr>)]\<rparr>)) \<and>
         (\<forall>s g x. map_of (groups s) (PublicKey g) = Some x \<longrightarrow>
            handleGroupJoined E (AccountGroupJoined (Some g)) s = Some (None, s)) \<and>
         (\<forall>s k x. map_of (groups s) k = Some x \<longrightarrow>
            handleGroupLeft E (AccountGroupLeft k) s = Some (None, s))"
proof (intro conjI)
  from UpdateIndex_returns[OF assms(2)] obtain r m' where
    u: "UpdateIndex E m entries = Some (r, m')" by blast
  from UpdateIndex_group_state[OF u assms(1)] u
  show "\<exists>r m'. UpdateIndex E m entries = Some (r, m') \<and>
            (\<forall>k. case newest_group_state E (group m) entries k of
                    None \<Rightarrow> map_of (groups m') k = None
                  | Some st \<Rightarrow> \<exists>g. map_of (groups m') k = Some g \<and> ag_state g = st)"
    by blast
  show "\<forall>s g. map_of (groups s) (PublicKey g) = None \<longrightarrow>
            handleGroupJoined E (AccountGroupJoined (Some g)) s =
              Some (None, s\<lparr>groups := groups s @
                [(PublicKey g, \<lparr>ag_state = accountGroupJoinedStateJoined, ag_group = Some g\<rparr>)]\<rparr>)"
    by (simp add: handleGroupJoined_def update_absent)
  show "\<forall>s k. map_of (groups s) k = None \<longrightarrow>
            handleGroupLeft E (AccountGroupLeft k) s =
              Some (None, s\<lparr>groups := groups s @
                [(k, \<lparr>ag_state = accountGroupJoinedStateLeft, ag_group = None\<rparr>)]\<rparr>)"
    by (simp add: handleGroupLeft_def update_absent)
  show "\<forall>s g x. map_of (groups s) (PublicKey g) = Some x \<longrightarrow>
            handleGroupJoined E (AccountGroupJoined (Some g)) s = Some (None, s)"
    by (simp add: handleGroupJoined_def)
  show "\<forall>s k x. map_of (groups s) k = Some x \<longrightarrow>
            handleGroupLeft E (AccountGroupLeft k) s = Some (None, s)"
    by (simp add: handleGroupLeft_def)
qed

text \<open>Group 8 joined, then left: the newest event is the leave, and the join, replayed
  after it, is ignored. Group 9 left, then joined: the join stores the record.\<close>

theorem group_state_is_newest_witness:
  "UpdateIndex ex_groups_env (ex_index GroupTypeAccount) ex_groups_log =
   Some (None,
     (ex_index GroupTypeAccount)
       \<lparr>handledEvents := {''h1'', ''h2'', ''h3'', ''h4''},
        groups := [(ex_key 9, \<lparr>ag_state = accountGroupJoinedStateJoined,
                               ag_group = Some \<lparr>PublicKey = ex_key 9,
                                                GroupType = GroupTypeContact\<rparr>\<rparr>),
                   (ex_key 8, \<lparr>ag_state = accountGroupJoinedStateLeft, ag_group = None\<rparr>)]\<rparr>) \<and>
   map (newest_group_state ex_groups_env (group (ex_index GroupTypeAccount)) ex_groups_log)
     [ex_key 8, ex_key 9, ex_key 10] =
   [Some accountGroupJoinedStateLeft, Some accountGroupJoinedStateJoined, None] \<and>
   (\<exists>r m'. UpdateIndex ex_groups_env (ex_index GroupTypeAccount) ex_groups_log = Some (r, m') \<and>
      (\<exists>g. map_of (groups m') (ex_key 9) = Some g \<and> ag_state g = accountGroupJoinedStateJoined) \<and>
      (\<exists>g. map_of (groups m') (ex_key 8) = Some g \<and> ag_state g = accountGroupJoinedStateLeft) \<and>
      map_of (groups m') (ex_key 10) = None)"
  (is "?eval \<and> ?newest \<and> ?after")
proof -
  have ev: ?eval
    by (simp add: ex_groups_env_def ex_groups_log_def eval_defs handleGroupJoined_def
        handleGroupLeft_def insert_commute)
  have n: ?newest
    by (simp add: ex_groups_env_def ex_groups_log_def group_event_def ex_env_def ex_entry_def)
  have d: "GroupType (group (ex_index GroupTypeAccount)) = GroupTypeAccount \<or>
           distinct (map GetHash ex_groups_log)"
    by (simp add: ex_index_def newMetadataIndex_def)
  have s: "\<forall>e \<in> set ex_groups_log.
             \<not> entry_panics ex_groups_env (group (ex_index GroupTypeAccount)) e"
    by (simp add: ex_groups_env_def ex_groups_log_def entry_panics_def panics_def
        ex_env_def ex_entry_def)
  from group_state_is_newest[OF d s, THEN conjunct1] obtain r m' where
    u: "UpdateIndex ex_groups_env (ex_index GroupTypeAccount) ex_groups_log = Some (r, m')"
    and k: "\<And>k. case newest_group_state ex_groups_env (group (ex_index GroupTypeAccount))
                     ex_groups_log k of
              None \<Rightarrow> map_of (groups m') k = None
            | Some st \<Rightarrow> \<exists>g. map_of (groups m') k = Some g \<and> ag_state g = st"
    by blast
  from k[of "ex_key 8"] k[of "ex_key 9"] k[of "ex_key 10"] n
  have "(\<exists>g. map_of (groups m') (ex_key 9) = Some g \<and> ag_state g = accountGroupJoinedStateJoined) \<and>
      (\<exists>g. map_of (groups m') (ex_key 8) = Some g \<and> ag_state g = accountGroupJoinedStateLeft) \<and>
      map_of (groups m') (ex_key 10) = None"
    by auto
  with u have ?after by blast
  with ev n show ?thesis by blast
qed

subsection \<open>C5: a removed service token is never listed\<close>

text \<open>
  C5. For every log, a service token whose tokenID appears in any
  AccountServiceTokenRemoved event is never returned by \<open>listServiceTokens\<close> after
  \<open>UpdateIndex\<close>, even if an AccountServiceTokenAdded event for the same tokenID appears
  anywhere (earlier or later) in log order: removal writes a tombstone unconditionally,
  addition is ignored when the key is present (including as a tombstone), and listing
  skips tombstones. (The log has distinct hashes or the group is an account group, so
  that the removal is not skipped as handled.)
\<close>

theorem removed_token_never_listed:
  assumes "UpdateIndex E m entries = Some (r, m')"
    and "GroupType (group m) = GroupTypeAccount \<or> distinct (map GetHash entries)"
    and "e \<in> set entries"
    and "removes_token E (group m) e tokenID"
  shows "(\<forall>t \<in> set (listServiceTokens m'). TokenID E (Some t) \<noteq> Some tokenID) \<and>
         map_of (serviceTokens m') tokenID = Some None \<and>
         (\<forall>s k. handleAccountServiceTokenRemoved E (AccountServiceTokenRemoved k) s =
                  Some (None, s\<lparr>serviceTokens := AList.update k None (serviceTokens s)\<rparr>)) \<and>
         (\<forall>s t k x. TokenID E t = Some k \<and> map_of (serviceTokens s) k = Some x \<longrightarrow>
                  handleAccountServiceTokenAdded E (AccountServiceTokenAdded t) s = Some (None, s))"
proof (intro conjI)
  from assms(1) obtain m1 where rp: "replay E (reset m) (rev entries) = Some m1"
    and post: "run_postIndexActions postIndexActions m1 = (r, m')"
    by (rule UpdateIndex_split)
  have g: "group (reset m) = group m" by (simp add: reset_def)
  from assms(3) obtain older newer where "entries = older @ e # newer"
    by (meson split_list)
  then have rv: "rev entries = rev newer @ e # rev older" by simp
  from rp[unfolded rv replay_append] obtain m2 where
    r2: "replay E (reset m) (rev newer) = Some m2" and r3: "replay E m2 (e # rev older) = Some m1"
    by blast
  from r3 obtain m3 where lb: "loop_body E m2 e = Some m3" and r4: "replay E m3 (rev older) = Some m1"
    by (auto split: option.splits)
  have "unskipped (reset m) (rev newer @ e # rev older)"
    using unskipped_reset[OF assms(2)] rv by simp
  from unskipped_replay[OF this r2] have "unskipped m2 (e # rev older)" .
  from unskipped_Cons(1)[OF this lb] have pe: "process_entry E m2 e = Some m3" .
  have "group m2 = group m" using replay_group[OF r2] g by simp
  with assms(4) have "removes_token E (group m2) e tokenID" by simp
  from process_entry_removes_token[OF pe this]
  have "map_of (serviceTokens m3) tokenID = Some None" .
  from replay_tombstone_kept[OF r4 this]
  show tomb: "map_of (serviceTokens m') tokenID = Some None"
    unfolding run_postIndexActions_fields(6)[OF post] .
  have "tokens_keyed E (reset m)" "distinct (map fst (serviceTokens (reset m)))"
    by (simp_all add: tokens_keyed_def reset_def)
  with replay_tokens_keyed[OF rp] replay_serviceTokens_distinct[OF rp]
  have keyed: "tokens_keyed E m'" and dist: "distinct (map fst (serviceTokens m'))"
    unfolding tokens_keyed_def run_postIndexActions_fields(6)[OF post] by blast+
  show "\<forall>t \<in> set (listServiceTokens m'). TokenID E (Some t) \<noteq> Some tokenID"
  proof
    fix t assume "t \<in> set (listServiceTokens m')"
    then obtain k where "(k, Some t) \<in> set (serviceTokens m')"
      unfolding listServiceTokens_iff by blast
    with dist have k: "map_of (serviceTokens m') k = Some (Some t)" by simp
    with keyed have "TokenID E (Some t) = Some k" unfolding tokens_keyed_def by blast
    with k tomb show "TokenID E (Some t) \<noteq> Some tokenID" by auto
  qed
  show "\<forall>s k. handleAccountServiceTokenRemoved E (AccountServiceTokenRemoved k) s =
                  Some (None, s\<lparr>serviceTokens := AList.update k None (serviceTokens s)\<rparr>)"
    by (simp add: handleAccountServiceTokenRemoved_def)
  show "\<forall>s t k x. TokenID E t = Some k \<and> map_of (serviceTokens s) k = Some x \<longrightarrow>
                  handleAccountServiceTokenAdded E (AccountServiceTokenAdded t) s = Some (None, s)"
    by (simp add: handleAccountServiceTokenAdded_def)
qed

text \<open>Scenario S4 of the specification, oldest entry first: token 1 added, token 1
  removed, token 2 added, token 1 added again. Only token 2 is listed.\<close>

theorem removed_token_never_listed_witness:
  "listServiceTokens (snd (the (UpdateIndex
     (ex_env [(''h1'', Inr (EventTypeAccountServiceTokenAdded,
                            AccountServiceTokenAdded (Some (ServiceToken [1])))),
              (''h2'', Inr (EventTypeAccountServiceTokenRemoved,
                            AccountServiceTokenRemoved ''T1'')),
              (''h3'', Inr (EventTypeAccountServiceTokenAdded,
                            AccountServiceTokenAdded (Some (ServiceToken [2])))),
              (''h4'', Inr (EventTypeAccountServiceTokenAdded,
                            AccountServiceTokenAdded (Some (ServiceToken [1]))))])
     (ex_index GroupTypeAccount)
     [ex_entry ''h1'', ex_entry ''h2'', ex_entry ''h3'', ex_entry ''h4'']))) =
   [ServiceToken [2]] \<and>
   TokenID
     (ex_env [(''h1'', Inr (EventTypeAccountServiceTokenAdded,
                            AccountServiceTokenAdded (Some (ServiceToken [1])))),
              (''h2'', Inr (EventTypeAccountServiceTokenRemoved,
                            AccountServiceTokenRemoved ''T1'')),
              (''h3'', Inr (EventTypeAccountServiceTokenAdded,
                            AccountServiceTokenAdded (Some (ServiceToken [2])))),
              (''h4'', Inr (EventTypeAccountServiceTokenAdded,
                            AccountServiceTokenAdded (Some (ServiceToken [1]))))])
     (Some (ServiceToken [2])) \<noteq> Some ''T1''"
  (is "listServiceTokens (snd (the (UpdateIndex ?E ?m ?log))) = _ \<and> _")
proof -
  have some: "UpdateIndex ?E ?m ?log \<noteq> None"
    by (simp add: eval_defs handleAccountServiceTokenAdded_def
        handleAccountServiceTokenRemoved_def)
  then obtain r m' where u: "UpdateIndex ?E ?m ?log = Some (r, m')" by auto
  have l: "listServiceTokens (snd (the (UpdateIndex ?E ?m ?log))) = [ServiceToken [2]]"
    by (simp add: eval_defs handleAccountServiceTokenAdded_def
        handleAccountServiceTokenRemoved_def listServiceTokens_def)
  have d: "GroupType (group ?m) = GroupTypeAccount \<or> distinct (map GetHash ?log)"
    by (simp add: ex_index_def newMetadataIndex_def)
  have i: "ex_entry ''h2'' \<in> set ?log" by simp
  have rm: "removes_token ?E (group ?m) (ex_entry ''h2'') ''T1''"
    by (simp add: removes_token_def ex_env_def ex_entry_def)
  from removed_token_never_listed[OF u d i rm] u l
  have "TokenID ?E (Some (ServiceToken [2])) \<noteq> Some ''T1''" by simp
  with l show ?thesis by simp
qed

subsection \<open>C7: the alias keys after the post action\<close>

text \<open>
  C7. \<open>UpdateIndex\<close> returns, and it is successful exactly when every staged
  contact-alias-key event has a sender resolvable in the device registry and every alias
  key of a foreign member has the key size of 32 bytes. After a successful
  \<open>UpdateIndex\<close>: \<open>ownAliasKeySent\<close> is true iff some staged event's sender device belongs
  to the own member; \<open>otherAliasKey\<close> equals the aliasPK of the last processed staged event
  from a foreign member if there is one, and is unchanged otherwise; and the staging
  queue is empty. (The index is one a program reaches: a new index, or one left by
  earlier calls over the log when it was shorter, the log being append-only. The log has
  distinct hashes or the group is an account group, so that no entry is skipped as
  handled, and no entry decodes to an event on which a handler dereferences nil.)
\<close>

theorem alias_keys_after_post_action:
  assumes "reach E m L"
    and "GroupType (group m) = GroupTypeAccount \<or> distinct (map GetHash (L @ ext))"
    and "\<forall>e \<in> set (L @ ext). \<not> entry_panics E (group m) e"
  shows "\<exists>r m'. UpdateIndex E m (L @ ext) = Some (r, m') \<and>
           (r = None \<longleftrightarrow>
              (\<forall>a \<in> set (staged_aliases E m (L @ ext)).
                 (\<exists>pk. unsafeGetMemberByDevice m' (fst a) = Inr pk) \<and>
                 (\<not> own_sender m' a \<longrightarrow> length (snd a) = KeySize))) \<and>
           (r = None \<longrightarrow>
              eventsContactAddAliasKey m' = [] \<and>
              (ownAliasKeySent m' \<longleftrightarrow>
                 (\<exists>a \<in> set (staged_aliases E m (L @ ext)). own_sender m' a)) \<and>
              otherAliasKey m' =
                (case last_foreign_alias m' (staged_aliases E m (L @ ext)) of
                   None \<Rightarrow> otherAliasKey m
                 | Some k \<Rightarrow> Some k))"
proof -
  from UpdateIndex_succeeds_iff[OF assms(2,3)] obtain r m' where
    u: "UpdateIndex E m (L @ ext) = Some (r, m')"
    and ok: "r = None \<longleftrightarrow>
              (\<forall>a \<in> set (staged_aliases E m (L @ ext)).
                 (\<exists>pk. unsafeGetMemberByDevice m' (fst a) = Inr pk) \<and>
                 (\<not> own_sender m' a \<longrightarrow> length (snd a) = KeySize))"
    by blast
  have "eventsContactAddAliasKey m' = [] \<and>
        (ownAliasKeySent m' \<longleftrightarrow>
           (\<exists>a \<in> set (staged_aliases E m (L @ ext)). own_sender m' a)) \<and>
        otherAliasKey m' =
          (case last_foreign_alias m' (staged_aliases E m (L @ ext)) of
             None \<Rightarrow> otherAliasKey m
           | Some k \<Rightarrow> Some k)" if "r = None"
  proof -
    from u that have u': "UpdateIndex E m (L @ ext) = Some (None, m')" by simp
    note general = post_action_alias_keys[OF u' assms(2)]
    note k = UpdateIndex_kept[OF u']
    have "ownAliasKeySent m \<longrightarrow> (\<exists>a \<in> set (staged_aliases E m (L @ ext)). own_sender m' a)"
    proof
      assume "ownAliasKeySent m"
      with reach_alias_flag[OF assms(1)] obtain e a where e: "e \<in> set L"
        and a: "a \<in> set (alias_of E (group m) e)" and own: "own_sender m a" by blast
      from e a have "a \<in> set (staged_aliases E m (L @ ext))"
        by (auto simp: staged_aliases_def)
      with own_sender_kept[OF k(1,3) own]
      show "\<exists>a \<in> set (staged_aliases E m (L @ ext)). own_sender m' a" by blast
    qed
    with general show ?thesis by blast
  qed
  with u ok show ?thesis by blast
qed

text \<open>Scenario S5 of the specification in two calls: the first call replays the own
  device and its alias key and sets the flag; the log grows by another member's device
  and its alias key, and the second call replays all four entries.\<close>

theorem alias_keys_after_post_action_witness:
  "UpdateIndex ex_alias_env (ex_index GroupTypeContact) [ex_entry ''h1'', ex_entry ''h2''] =
   Some (None,
     (ex_index GroupTypeContact)
       \<lparr>members := [(ex_key 1, [\<lparr>Member = Ed25519PublicKey (ex_key 1),
                                   Device = Ed25519PublicKey (ex_key 2)\<rparr>])],
        devices := [(ex_key 2, \<lparr>Member = Ed25519PublicKey (ex_key 1),
                                 Device = Ed25519PublicKey (ex_key 2)\<rparr>)],
        handledEvents := {''h1'', ''h2''},
        ownAliasKeySent := True\<rparr>) \<and>
   UpdateIndex ex_alias_env
     ((ex_index GroupTypeContact)
       \<lparr>members := [(ex_key 1, [\<lparr>Member = Ed25519PublicKey (ex_key 1),
                                   Device = Ed25519PublicKey (ex_key 2)\<rparr>])],
        devices := [(ex_key 2, \<lparr>Member = Ed25519PublicKey (ex_key 1),
                                 Device = Ed25519PublicKey (ex_key 2)\<rparr>)],
        handledEvents := {''h1'', ''h2''},
        ownAliasKeySent := True\<rparr>)
     ([ex_entry ''h1'', ex_entry ''h2''] @ [ex_entry ''h3'', ex_entry ''h4'']) =
   Some (None,
     (ex_index GroupTypeContact)
       \<lparr>members := [(ex_key 1, [\<lparr>Member = Ed25519PublicKey (ex_key 1),
                                   Device = Ed25519PublicKey (ex_key 2)\<rparr>]),
                    (ex_key 3, [\<lparr>Member = Ed25519PublicKey (ex_key 3),
                                   Device = Ed25519PublicKey (ex_key 4)\<rparr>])],
        devices := [(ex_key 2, \<lparr>Member = Ed25519PublicKey (ex_key 1),
                                 Device = Ed25519PublicKey (ex_key 2)\<rparr>),
                    (ex_key 4, \<lparr>Member = Ed25519PublicKey (ex_key 3),
                                 Device = Ed25519PublicKey (ex_key 4)\<rparr>)],
        handledEvents := {''h1'', ''h2'', ''h3'', ''h4''},
        ownAliasKeySent := True,
        otherAliasKey := Some (ex_key 10)\<rparr>) \<and>
   staged_aliases ex_alias_env
     ((ex_index GroupTypeContact)
       \<lparr>members := [(ex_key 1, [\<lparr>Member = Ed25519PublicKey (ex_key 1),
                                   Device = Ed25519PublicKey (ex_key 2)\<rparr>])],
        devices := [(ex_key 2, \<lparr>Member = Ed25519PublicKey (ex_key 1),
                                 Device = Ed25519PublicKey (ex_key 2)\<rparr>)],
        handledEvents := {''h1'', ''h2''},
        ownAliasKeySent := True\<rparr>)
     ([ex_entry ''h1'', ex_entry ''h2''] @ [ex_entry ''h3'', ex_entry ''h4'']) =
   [(ex_key 4, ex_key 10), (ex_key 2, ex_key 9)]"
  (is "UpdateIndex ?E ?m ?L = Some (None, ?m1) \<and> UpdateIndex ?E ?m1 (?L @ ?ext) = Some (None, ?m2) \<and>
       staged_aliases ?E ?m1 (?L @ ?ext) = ?q")
proof -
  have u1: "UpdateIndex ?E ?m ?L = Some (None, ?m1)"
    by (simp add: ex_alias_env_def eval_defs handleGroupMemberDeviceAdded_def
        handleContactAliasKeyAdded_def insert_commute)
  have u2: "UpdateIndex ?E ?m1 (?L @ ?ext) = Some (None, ?m2)"
    by (simp add: ex_alias_env_def eval_defs handleGroupMemberDeviceAdded_def
        handleContactAliasKeyAdded_def insert_commute)
  have s: "staged_aliases ?E ?m1 (?L @ ?ext) = ?q"
    by (simp add: ex_alias_env_def staged_aliases_def alias_of_def ex_env_def ex_entry_def
        ex_index_def newMetadataIndex_def)
  have "reach ?E ?m []" unfolding ex_index_def by (rule reach_new)
  from reach_call[OF this, of ?L None ?m1] u1 have r: "reach ?E ?m1 ?L" by simp
  have d: "GroupType (group ?m1) = GroupTypeAccount \<or> distinct (map GetHash (?L @ ?ext))"
    by (simp add: ex_entry_def)
  have p: "\<forall>e \<in> set (?L @ ?ext). \<not> entry_panics ?E (group ?m1) e"
    by (simp add: ex_alias_env_def entry_panics_def panics_def ex_env_def ex_entry_def)
  from alias_keys_after_post_action[OF r d p] u2
  have "ownAliasKeySent ?m2 \<longleftrightarrow> (\<exists>a \<in> set (staged_aliases ?E ?m1 (?L @ ?ext)). own_sender ?m2 a)"
    by auto
  with u1 u2 s show ?thesis by simp
qed

subsection \<open>C3: what the queries hand out\<close>

text \<open>
  C3 asks that every query return an owned copy, so that mutating a returned collection
  or record never changes a contact record of the index. \<open>listContacts\<close> does so: its
  records are new cells. \<open>getContact\<close> does not: it returns the pointer the contacts
  map holds. After the replay of one outgoing request sent to contact 7, \<open>getContact\<close>
  returns the address 0 of the internal record; the caller's assignment of \<open>Blocked\<close>
  through it changes the record the index holds under the key, and the next
  \<open>listContacts\<close> reports the contact as blocked. The same assignment through the
  pointer a previous \<open>listContacts\<close> returned (address 1) leaves the internal record as
  it was.
\<close>

theorem getContact_returns_internal_record:
  "UpdateIndex
     (ex_env [(''h1'', Inr (EventTypeAccountContactRequestOutgoingSent,
                            AccountContactRequestOutgoingSent (ex_key 7)))])
     (ex_index GroupTypeAccount) [ex_entry ''h1''] =
   Some (None,
     (ex_index GroupTypeAccount)
       \<lparr>handledEvents := {''h1''},
        contacts := [(ex_key 7, 0)],
        contactsFromGroupPK := [(ex_key 7, 0)],
        heap := [\<lparr>state = ContactStateAdded,
                   contact = \<lparr>PK = ex_key 7, PublicRendezvousSeed = None, Metadata = None\<rparr>\<rparr>]\<rparr>) \<and>
   getContact
     ((ex_index GroupTypeAccount)
       \<lparr>handledEvents := {''h1''},
        contacts := [(ex_key 7, 0)],
        contactsFromGroupPK := [(ex_key 7, 0)],
        heap := [\<lparr>state = ContactStateAdded,
                   contact = \<lparr>PK = ex_key 7, PublicRendezvousSeed = None, Metadata = None\<rparr>\<rparr>]\<rparr>)
     (Ed25519PublicKey (ex_key 7)) = Inr 0 \<and>
   map (\<lambda>(k, p). state (heap (snd (listContacts (caller_sets_state 0 ContactStateBlocked
       ((ex_index GroupTypeAccount)
         \<lparr>handledEvents := {''h1''},
          contacts := [(ex_key 7, 0)],
          contactsFromGroupPK := [(ex_key 7, 0)],
          heap := [\<lparr>state = ContactStateAdded,
                     contact = \<lparr>PK = ex_key 7, PublicRendezvousSeed = None,
                                Metadata = None\<rparr>\<rparr>]\<rparr>)))) ! p))
     (fst (listContacts (caller_sets_state 0 ContactStateBlocked
       ((ex_index GroupTypeAccount)
         \<lparr>handledEvents := {''h1''},
          contacts := [(ex_key 7, 0)],
          contactsFromGroupPK := [(ex_key 7, 0)],
          heap := [\<lparr>state = ContactStateAdded,
                     contact = \<lparr>PK = ex_key 7, PublicRendezvousSeed = None,
                                Metadata = None\<rparr>\<rparr>]\<rparr>)))) =
   [ContactStateBlocked] \<and>
   fst (listContacts
     ((ex_index GroupTypeAccount)
       \<lparr>handledEvents := {''h1''},
        contacts := [(ex_key 7, 0)],
        contactsFromGroupPK := [(ex_key 7, 0)],
        heap := [\<lparr>state = ContactStateAdded,
                   contact = \<lparr>PK = ex_key 7, PublicRendezvousSeed = None, Metadata = None\<rparr>\<rparr>]\<rparr>)) =
   [(ex_key 7, 1)] \<and>
   state (heap (caller_sets_state 1 ContactStateBlocked (snd (listContacts
     ((ex_index GroupTypeAccount)
       \<lparr>handledEvents := {''h1''},
        contacts := [(ex_key 7, 0)],
        contactsFromGroupPK := [(ex_key 7, 0)],
        heap := [\<lparr>state = ContactStateAdded,
                   contact = \<lparr>PK = ex_key 7, PublicRendezvousSeed = None,
                              Metadata = None\<rparr>\<rparr>]\<rparr>)))) ! 0) =
   ContactStateAdded"
  by (simp add: eval_defs handleContactRequestOutgoingSent_def getContact_def listContacts_def
      caller_sets_state_def)

subsection \<open>C9: a second replay of the same log\<close>

text \<open>
  C9 says that running \<open>UpdateIndex\<close> twice in succession over the same log yields the
  same observable state through every query operation as running it once. The code does
  not do so for \<open>listAdmins\<close>. In a multi-member group, a log of one entry that announces
  the initial member: after the first call \<open>listAdmins\<close> holds the key of the member
  once, after the second call over the same log it holds the key twice. The handler looks
  the new key up in the admins map before it stores it, and the lookup finds nothing,
  the map being keyed by the pointer. Every other query answers the same after both
  calls.
\<close>

theorem second_replay_adds_admin_again:
  "UpdateIndex
     (ex_env [(''h1'', Inr (EventTypeMultiMemberGroupInitialMemberAnnounced,
                            MultiMemberGroupInitialMemberAnnounced (ex_key 1)))])
     (ex_index GroupTypeMultiMember) [ex_entry ''h1''] =
   Some (None, (ex_index GroupTypeMultiMember)
                 \<lparr>handledEvents := {''h1''}, admins := [(1, Ed25519PublicKey (ex_key 1))]\<rparr>) \<and>
   UpdateIndex
     (ex_env [(''h1'', Inr (EventTypeMultiMemberGroupInitialMemberAnnounced,
                            MultiMemberGroupInitialMemberAnnounced (ex_key 1)))])
     ((ex_index GroupTypeMultiMember)
        \<lparr>handledEvents := {''h1''}, admins := [(1, Ed25519PublicKey (ex_key 1))]\<rparr>)
     [ex_entry ''h1''] =
   Some (None, (ex_index GroupTypeMultiMember)
                 \<lparr>handledEvents := {''h1''},
                  admins := [(1, Ed25519PublicKey (ex_key 1)),
                             (2, Ed25519PublicKey (ex_key 1))]\<rparr>) \<and>
   listAdmins ((ex_index GroupTypeMultiMember)
                 \<lparr>handledEvents := {''h1''}, admins := [(1, Ed25519PublicKey (ex_key 1))]\<rparr>) =
     [Ed25519PublicKey (ex_key 1)] \<and>
   listAdmins ((ex_index GroupTypeMultiMember)
                 \<lparr>handledEvents := {''h1''},
                  admins := [(1, Ed25519PublicKey (ex_key 1)),
                             (2, Ed25519PublicKey (ex_key 1))]\<rparr>) =
     [Ed25519PublicKey (ex_key 1), Ed25519PublicKey (ex_key 1)] \<and>
   other_queries ((ex_index GroupTypeMultiMember)
                 \<lparr>handledEvents := {''h1''},
                  admins := [(1, Ed25519PublicKey (ex_key 1)),
                             (2, Ed25519PublicKey (ex_key 1))]\<rparr>) =
   other_queries ((ex_index GroupTypeMultiMember)
                 \<lparr>handledEvents := {''h1''}, admins := [(1, Ed25519PublicKey (ex_key 1))]\<rparr>) \<and>
   query_surface ((ex_index GroupTypeMultiMember)
                 \<lparr>handledEvents := {''h1''},
                  admins := [(1, Ed25519PublicKey (ex_key 1)),
                             (2, Ed25519PublicKey (ex_key 1))]\<rparr>) \<noteq>
   query_surface ((ex_index GroupTypeMultiMember)
                 \<lparr>handledEvents := {''h1''}, admins := [(1, Ed25519PublicKey (ex_key 1))]\<rparr>)"
  (is "UpdateIndex ?E ?m ?log = Some (None, ?m1) \<and> UpdateIndex ?E ?m1 ?log = Some (None, ?m2) \<and>
       _ \<and> _ \<and> _ \<and> _")
proof -
  have u1: "UpdateIndex ?E ?m ?log = Some (None, ?m1)"
    by (simp add: eval_defs handleMultiMemberInitialMember_def new_PubKey_def)
  have u2: "UpdateIndex ?E ?m1 ?log = Some (None, ?m2)"
    by (simp add: eval_defs handleMultiMemberInitialMember_def new_PubKey_def)
  from second_replay[OF u1] u2 have "other_queries ?m2 = other_queries ?m1" by simp
  with u1 u2 show ?thesis by (simp add: listAdmins_def query_surface_def)
qed

end
